theory Spec2Isabelle
  imports Main
begin

section \<open>The marker pattern\<close>

text \<open>
  The command \<^verbatim>\<open>cleanup_editor_images\<close> finds the ids of the images in use with
  \<^verbatim>\<open>re.findall(r'data-image-id="(\d+)"', str(content))\<close> and converts every captured
  group with \<^verbatim>\<open>int\<close>. A Python \<^verbatim>\<open>str\<close> is a list of code points. On a \<^verbatim>\<open>str\<close> the class
  \<^verbatim>\<open>\d\<close> is the set of Unicode decimal digits: the ten ASCII digits, no other code point
  below 128, and above that what the Unicode table of the interpreter says. The table is not
  part of the sources; it is the parameter \<open>nd\<close>, which gives the digit value of a code
  point that is a decimal digit. \<^verbatim>\<open>int\<close> reads the digits by the same table.
\<close>

type_synonym pystr = "nat list"

type_synonym unicode_digits = "nat \<Rightarrow> nat option"

type_synonym exn = string

definition str_of :: "string \<Rightarrow> pystr" where
  "str_of cs = map of_char cs"

definition decimal_digit :: "unicode_digits \<Rightarrow> nat \<Rightarrow> nat option" where
  "decimal_digit nd c =
     (if 48 \<le> c \<and> c \<le> 57 then Some (c - 48) else if c < 128 then None else nd c)"

definition is_digit :: "unicode_digits \<Rightarrow> nat \<Rightarrow> bool" where
  "is_digit nd c = (decimal_digit nd c \<noteq> None)"

definition quote :: nat where
  "quote = 34"

definition marker_prefix :: pystr where
  "marker_prefix = str_of ''data-image-id='' @ [quote]"

text \<open>\<open>strip_prefix p s\<close>: what follows \<open>p\<close> in \<open>s\<close> when \<open>s\<close> starts with \<open>p\<close>.\<close>

fun strip_prefix :: "pystr \<Rightarrow> pystr \<Rightarrow> pystr option" where
  "strip_prefix [] s = Some s"
| "strip_prefix (p # ps) [] = None"
| "strip_prefix (p # ps) (c # cs) = (if p = c then strip_prefix ps cs else None)"

text \<open>
  A match of the pattern at the start of \<open>s\<close>: the literal prefix, the longest run of
  digits (which must not be empty) and a closing quote. The result is the captured group
  and the text after the match. \<^verbatim>\<open>\d+\<close> is greedy and the regex engine backtracks, but a
  shorter run of digits would have to be followed by a quote where a digit stands, so the
  longest run is the only candidate.
\<close>

definition match_marker :: "unicode_digits \<Rightarrow> pystr \<Rightarrow> (pystr \<times> pystr) option" where
  "match_marker nd s =
     (case strip_prefix marker_prefix s of
        None \<Rightarrow> None
      | Some r \<Rightarrow>
          (let ds = takeWhile (is_digit nd) r in
           if ds = [] then None
           else (case dropWhile (is_digit nd) r of
                   [] \<Rightarrow> None
                 | q # rest \<Rightarrow> if q = quote then Some (ds, rest) else None)))"

lemma strip_prefix_length: "strip_prefix p s = Some r \<Longrightarrow> length s = length p + length r"
  by (induction p s rule: strip_prefix.induct) (auto split: if_splits)

lemma match_marker_shorter:
  assumes "match_marker nd s = Some (ds, rest)"
  shows "length rest < length s"
proof -
  from assms obtain r q where r: "strip_prefix marker_prefix s = Some r"
    and d: "dropWhile (is_digit nd) r = q # rest"
    by (auto simp: match_marker_def Let_def split: option.splits list.splits if_splits)
  have "length (dropWhile (is_digit nd) r) \<le> length r"
    by (rule length_dropWhile_le)
  with d have "length rest < length r" by simp
  with strip_prefix_length [OF r] show ?thesis by simp
qed

text \<open>
  \<^verbatim>\<open>re.findall\<close> scans from left to right: where the pattern matches, the group is
  returned and the scan goes on after the match; elsewhere it moves one character on.
\<close>

function findall :: "unicode_digits \<Rightarrow> pystr \<Rightarrow> pystr list" where
  "findall nd [] = []"
| "findall nd (c # cs) =
     (case match_marker nd (c # cs) of
        Some (ds, rest) \<Rightarrow> ds # findall nd rest
      | None \<Rightarrow> findall nd cs)"
  by pat_completeness auto
termination
  by (relation "measure (\<lambda>(nd, s). length s)") (auto dest: match_marker_shorter)

text \<open>
  \<^verbatim>\<open>int(img_id)\<close> on a string of decimal digits: its decimal value, leading zeros allowed.
  The interpreter refuses a string of more than 4300 digits (its default limit, leading
  zeros counted) with a \<^verbatim>\<open>ValueError\<close>.
\<close>

definition digit_value :: "unicode_digits \<Rightarrow> nat \<Rightarrow> int" where
  "digit_value nd c = int (the (decimal_digit nd c))"

definition int_of_digits :: "unicode_digits \<Rightarrow> pystr \<Rightarrow> int" where
  "int_of_digits nd ds = foldl (\<lambda>a c. 10 * a + digit_value nd c) 0 ds"

definition max_str_digits :: nat where
  "max_str_digits = 4300"

definition int_limit_error :: exn where
  "int_limit_error = ''ValueError: Exceeds the limit (4300 digits) for integer string conversion''"

definition py_int :: "unicode_digits \<Rightarrow> pystr \<Rightarrow> exn + int" where
  "py_int nd ds =
     (if max_str_digits < length ds then Inl int_limit_error else Inr (int_of_digits nd ds))"

text \<open>
  \<^verbatim>\<open>used_image_ids.update(int(img_id) for img_id in image_ids)\<close>: the set takes the ids one
  by one, so the ids converted before a \<^verbatim>\<open>ValueError\<close> are in the set when it is raised.
\<close>

fun update_ids :: "unicode_digits \<Rightarrow> pystr list \<Rightarrow> int set \<Rightarrow> int set \<times> exn option" where
  "update_ids nd [] used = (used, None)"
| "update_ids nd (d # ds) used =
     (case py_int nd d of
        Inl e \<Rightarrow> (used, Some e)
      | Inr n \<Rightarrow> update_ids nd ds (insert n used))"

section \<open>The entity catalog\<close>

text \<open>
  \<^verbatim>\<open>apps.get_models()\<close> lists the registered model classes. Of a model the command uses
  its \<^verbatim>\<open>__name__\<close>, the fields of \<^verbatim>\<open>_meta.get_fields()\<close> with their class, and the
  instances of \<^verbatim>\<open>objects.all()\<close>. Reading an attribute of an instance gives a value
  (\<^verbatim>\<open>None\<close> or a string) or raises an exception, which is its message here; an instance
  that has no attribute of that name is \<open>None\<close> of the map. A query that fails as a whole
  is a list whose first instance raises: in both cases the loop over the instances ends
  before it has read anything.
\<close>

datatype field_class = TextField | CharField | OtherField

record model_field =
  field_name :: string
  field_type :: field_class

datatype attr = Raises exn | Value "pystr option"

type_synonym model_instance = "string \<Rightarrow> attr option"

record model =
  model_name :: string
  get_fields :: "model_field list"
  objects :: "model_instance list"

text \<open>\<^verbatim>\<open>isinstance(field, (models.TextField, models.CharField))\<close>\<close>

definition is_text_field :: "model_field \<Rightarrow> bool" where
  "is_text_field f = (field_type f = TextField \<or> field_type f = CharField)"

definition text_fields :: "model \<Rightarrow> model_field list" where
  "text_fields m = filter is_text_field (get_fields m)"

text \<open>
  \<^verbatim>\<open>getattr(instance, name, default)\<close>: the default where the attribute is missing, any
  other exception goes to the caller.
\<close>

definition getattr :: "model_instance \<Rightarrow> string \<Rightarrow> pystr \<Rightarrow> exn + pystr option" where
  "getattr inst name dflt =
     (case inst name of
        None \<Rightarrow> Inr (Some dflt)
      | Some (Raises e) \<Rightarrow> Inl e
      | Some (Value v) \<Rightarrow> Inr v)"

text \<open>\<^verbatim>\<open>not content\<close>: \<^verbatim>\<open>None\<close> and the empty string are false.\<close>

definition falsy :: "pystr option \<Rightarrow> bool" where
  "falsy v = (case v of None \<Rightarrow> True | Some t \<Rightarrow> t = [])"

section \<open>The output\<close>

text \<open>One constructor for each \<^verbatim>\<open>self.stdout.write\<close> of the command, with the values it prints.\<close>

datatype msg =
    Searching
  | FoundUploaded nat
  | Checking string
  | ErrorChecking string string exn
  | CheckedModels nat
  | FoundInUse nat
  | NoUnused
  | FoundUnused nat
  | DryRunBanner
  | WouldDelete string int
  | Deleting string int
  | SuccessDeleted nat

section \<open>The scan\<close>

text \<open>
  The loop over the instances of one model for one field, the body of the \<^verbatim>\<open>try\<close>.
  \<^verbatim>\<open>used_image_ids\<close> is updated in place, so the ids found before an exception stay in
  the set: the result is the set and the exception that ended the loop, if any.
\<close>

fun scan_instances ::
  "unicode_digits \<Rightarrow> string \<Rightarrow> model_instance list \<Rightarrow> int set \<Rightarrow> int set \<times> exn option" where
  "scan_instances nd fname [] used = (used, None)"
| "scan_instances nd fname (inst # rest) used =
     (case getattr inst fname [] of
        Inl e \<Rightarrow> (used, Some e)
      | Inr content \<Rightarrow>
          if falsy content then scan_instances nd fname rest used
          else (case update_ids nd (findall nd (the content)) used of
                  (used', Some e) \<Rightarrow> (used', Some e)
                | (used', None) \<Rightarrow> scan_instances nd fname rest used'))"

text \<open>The loop over the text fields of one model: \<^verbatim>\<open>try\<close> and \<^verbatim>\<open>except Exception\<close>.\<close>

fun scan_fields ::
  "unicode_digits \<Rightarrow> model \<Rightarrow> model_field list \<Rightarrow> int set \<times> msg list \<Rightarrow> int set \<times> msg list" where
  "scan_fields nd m [] st = st"
| "scan_fields nd m (f # fs) (used, out) =
     (case scan_instances nd (field_name f) (objects m) used of
        (used', None) \<Rightarrow> scan_fields nd m fs (used', out)
      | (used', Some e) \<Rightarrow>
          scan_fields nd m fs (used', out @ [ErrorChecking (model_name m) (field_name f) e]))"

text \<open>The loop over the models; the state is \<^verbatim>\<open>used_image_ids\<close>, \<^verbatim>\<open>models_checked\<close> and the output.\<close>

fun scan_models ::
  "unicode_digits \<Rightarrow> model list \<Rightarrow> int set \<times> nat \<times> msg list \<Rightarrow> int set \<times> nat \<times> msg list" where
  "scan_models nd [] st = st"
| "scan_models nd (m # ms) (used, checked, out) =
     (if text_fields m = [] then scan_models nd ms (used, checked, out)
      else (case scan_fields nd m (text_fields m) (used, out @ [Checking (model_name m)]) of
              (used', out') \<Rightarrow> scan_models nd ms (used', checked + 1, out')))"

section \<open>The image store\<close>

text \<open>
  An \<^verbatim>\<open>EditorImage\<close> row, with what the command reads of it (\<^verbatim>\<open>image.id\<close> and
  \<^verbatim>\<open>image.image.name\<close>) and the time of its upload, and the store: the table and the
  names of the files in storage. The command reaches the store through the framework:
  the query \<^verbatim>\<open>all_images.exclude(id__in=used_image_ids)\<close>, \<^verbatim>\<open>FieldFile.delete\<close> and
  \<^verbatim>\<open>Model.delete\<close>. The \<open>backend\<close> says what fails there, and with what: the deletion of
  a file that is in storage, the deletion of a row that is in the table, and the query,
  which sends the ids to the database as its parameters.
\<close>

record editor_image =
  image_id :: int
  image_name :: string
  uploaded_at :: nat

record image_store =
  rows :: "editor_image list"
  files :: "string set"

record backend =
  storage_delete_error :: "string \<Rightarrow> exn option"
  record_delete_error :: "int \<Rightarrow> exn option"
  exclude_query_error :: "int set \<Rightarrow> exn option"

text \<open>
  Modelled from the spec: the declaration of \<^verbatim>\<open>EditorImage\<close> (its \<^verbatim>\<open>Meta.ordering\<close>) is
  not among the sources; "Ordering for listing is by uploaded_at descending". Rows
  uploaded at the same time are listed in the order of the table.
\<close>

definition objects_all :: "image_store \<Rightarrow> editor_image list" where
  "objects_all s = sort_key (\<lambda>r. - int (uploaded_at r)) (rows s)"

text \<open>
  \<^verbatim>\<open>all_images.exclude(id__in=used_image_ids)\<close>, evaluated by \<^verbatim>\<open>count()\<close> and by the loops:
  the database raises, or the images whose id is not in the set are listed.
\<close>

definition unused_images :: "backend \<Rightarrow> editor_image list \<Rightarrow> int set \<Rightarrow> exn + editor_image list" where
  "unused_images b all_images used_image_ids =
     (case exclude_query_error b used_image_ids of
        Some e \<Rightarrow> Inl e
      | None \<Rightarrow> Inr (filter (\<lambda>r. image_id r \<notin> used_image_ids) all_images))"

text \<open>
  \<^verbatim>\<open>image.image.delete(save=False)\<close>: nothing for a row without a file name; the file
  system storage passes over a file that is not there (\<^verbatim>\<open>FileNotFoundError\<close>); else the
  storage raises or the file leaves the storage. \<^verbatim>\<open>image.delete()\<close>: for a row that has
  left the table the \<^verbatim>\<open>DELETE\<close> finds nothing and is no error; else the database raises or
  the row of that primary key leaves the table.
\<close>

definition fieldfile_delete :: "backend \<Rightarrow> editor_image \<Rightarrow> image_store \<Rightarrow> exn + image_store" where
  "fieldfile_delete b r s =
     (if image_name r = [] then Inr s
      else if image_name r \<notin> files s then Inr s
      else (case storage_delete_error b (image_name r) of
              Some e \<Rightarrow> Inl e
            | None \<Rightarrow> Inr (s\<lparr>files := files s - {image_name r}\<rparr>)))"

definition model_delete :: "backend \<Rightarrow> editor_image \<Rightarrow> image_store \<Rightarrow> exn + image_store" where
  "model_delete b r s =
     (if image_id r \<notin> image_id ` set (rows s) then Inr s
      else (case record_delete_error b (image_id r) of
              Some e \<Rightarrow> Inl e
            | None \<Rightarrow> Inr (s\<lparr>rows := filter (\<lambda>x. image_id x \<noteq> image_id r) (rows s)\<rparr>)))"

text \<open>
  The deleting loop. Nothing catches an exception here: it ends the loop and the command,
  with the store as it is at that moment.
\<close>

fun delete_loop ::
  "backend \<Rightarrow> editor_image list \<Rightarrow> image_store \<Rightarrow> msg list \<Rightarrow> image_store \<times> msg list \<times> exn option" where
  "delete_loop b [] s out = (s, out, None)"
| "delete_loop b (r # rs) s out =
     (case fieldfile_delete b r s of
        Inl e \<Rightarrow> (s, out @ [Deleting (image_name r) (image_id r)], Some e)
      | Inr s1 \<Rightarrow>
          (case model_delete b r s1 of
             Inl e \<Rightarrow> (s1, out @ [Deleting (image_name r) (image_id r)], Some e)
           | Inr s2 \<Rightarrow> delete_loop b rs s2 (out @ [Deleting (image_name r) (image_id r)])))"

section \<open>The command\<close>

text \<open>
  The first part of \<^verbatim>\<open>Command.handle\<close>, up to the line that tells how many images are
  in use: the set of used ids and what has been written so far.
\<close>

definition scan :: "unicode_digits \<Rightarrow> model list \<Rightarrow> image_store \<Rightarrow> int set \<times> msg list" where
  "scan nd catalog s =
     (let all_images = objects_all s;
          total_images = length all_images
      in case scan_models nd catalog ({}, 0, [Searching, FoundUploaded total_images]) of
        (used_image_ids, models_checked, out) \<Rightarrow>
          (used_image_ids, out @ [CheckedModels models_checked, FoundInUse (card used_image_ids)]))"

text \<open>
  \<^verbatim>\<open>Command.handle\<close> with \<^verbatim>\<open>options["dry_run"]\<close> as \<open>dry_run\<close>. The result is the store
  after the command, what it wrote, and the exception it ended with, if any. The query is
  evaluated outside any \<^verbatim>\<open>try\<close>: when the database raises, the command ends there.
\<close>

definition handle ::
  "unicode_digits \<Rightarrow> backend \<Rightarrow> bool \<Rightarrow> model list \<Rightarrow> image_store
     \<Rightarrow> image_store \<times> msg list \<times> exn option" where
  "handle nd b dry_run catalog s =
     (case scan nd catalog s of
        (used_image_ids, out) \<Rightarrow>
          (case unused_images b (objects_all s) used_image_ids of
             Inl e \<Rightarrow> (s, out, Some e)
           | Inr unused \<Rightarrow>
               (let unused_count = length unused
                in if unused_count = 0 then (s, out @ [NoUnused], None)
                   else if dry_run then
                     (s, out @ [FoundUnused unused_count, DryRunBanner]
                           @ map (\<lambda>r. WouldDelete (image_name r) (image_id r)) unused, None)
                   else (case delete_loop b unused s (out @ [FoundUnused unused_count]) of
                           (s', out', None) \<Rightarrow> (s', out' @ [SuccessDeleted unused_count], None)
                         | (s', out', Some e) \<Rightarrow> (s', out', Some e)))))"

text \<open>What a run reports: the set of ids in use, the ids it deleted, its warnings.\<close>

definition used_image_ids :: "unicode_digits \<Rightarrow> model list \<Rightarrow> int set" where
  "used_image_ids nd catalog = fst (scan_models nd catalog ({}, 0, []))"

fun deleted_ids :: "msg list \<Rightarrow> int list" where
  "deleted_ids [] = []"
| "deleted_ids (Deleting n i # out) = i # deleted_ids out"
| "deleted_ids (_ # out) = deleted_ids out"

fun warnings :: "msg list \<Rightarrow> (string \<times> string \<times> exn) list" where
  "warnings [] = []"
| "warnings (ErrorChecking m f e # out) = (m, f, e) # warnings out"
| "warnings (_ # out) = warnings out"

section \<open>The database of the repository\<close>

text \<open>
  The settings of the repository name sqlite and no storage, so the files are in the file
  system storage. sqlite takes a limited number of parameters in a statement (the limit
  depends on how it was built) and integers below \<open>2 ^ 63\<close>; the driver raises for a
  statement with more parameters and for a larger integer.
\<close>

definition sqlite_query_error :: "nat \<Rightarrow> int set \<Rightarrow> exn option" where
  "sqlite_query_error max_variables ids =
     (if max_variables < card ids then Some ''OperationalError: too many SQL variables''
      else if \<exists>n\<in>ids. 2 ^ 63 \<le> n
        then Some ''OverflowError: Python int too large to convert to SQLite INTEGER''
      else None)"

text \<open>sqlite and a storage in which no deletion fails.\<close>

definition sqlite :: "nat \<Rightarrow> backend" where
  "sqlite max_variables =
     \<lparr>storage_delete_error = (\<lambda>_. None), record_delete_error = (\<lambda>_. None),
      exclude_query_error = sqlite_query_error max_variables\<rparr>"

text \<open>sqlite and a storage that raises \<open>e\<close> when it is to delete the file \<open>name\<close>.\<close>

definition failing_storage :: "string \<Rightarrow> exn \<Rightarrow> backend" where
  "failing_storage name e =
     \<lparr>storage_delete_error = (\<lambda>n. if n = name then Some e else None),
      record_delete_error = (\<lambda>_. None),
      exclude_query_error = sqlite_query_error 999\<rparr>"

section \<open>Notions of the specification\<close>

text \<open>
  A marker for the id \<open>n\<close> in a text, in the words of the specification: somewhere in the
  text stands \<^verbatim>\<open>data-image-id="\<close>, a non-empty string of digits whose decimal value is
  \<open>n\<close>, and a closing quote.
\<close>

definition has_marker :: "unicode_digits \<Rightarrow> pystr \<Rightarrow> int \<Rightarrow> bool" where
  "has_marker nd html n =
     (\<exists>pre ds post. html = pre @ marker_prefix @ ds @ quote # post \<and> ds \<noteq> []
        \<and> list_all (is_digit nd) ds \<and> int_of_digits nd ds = n)"

text \<open>
  The ids referenced by the content records: \<open>n\<close> is referenced when a text attribute of
  an instance of a registered model holds a string with a marker for \<open>n\<close>.
\<close>

definition referenced_ids :: "unicode_digits \<Rightarrow> model list \<Rightarrow> int set" where
  "referenced_ids nd catalog =
     {n. \<exists>m\<in>set catalog. \<exists>f\<in>set (text_fields m). \<exists>i\<in>set (objects m). \<exists>html.
           i (field_name f) = Some (Value (Some html)) \<and> has_marker nd html n}"

text \<open>
  The body of the loop over the instances raises for this instance and this attribute:
  the read raises, or the value holds a marker that \<^verbatim>\<open>int\<close> refuses.
\<close>

definition raises_on :: "unicode_digits \<Rightarrow> string \<Rightarrow> model_instance \<Rightarrow> bool" where
  "raises_on nd fname inst =
     (case getattr inst fname [] of
        Inl e \<Rightarrow> True
      | Inr content \<Rightarrow>
          \<not> falsy content
          \<and> \<not> list_all (\<lambda>d. length d \<le> max_str_digits) (findall nd (the content)))"

text \<open>The loop body raises for no text attribute of any instance of the catalog.\<close>

definition readable :: "unicode_digits \<Rightarrow> model list \<Rightarrow> bool" where
  "readable nd catalog =
     list_all (\<lambda>m. list_all (\<lambda>f. list_all (\<lambda>i. \<not> raises_on nd (field_name f) i) (objects m))
                      (text_fields m)) catalog"

text \<open>
  The deletion of the file of the image fails in this store: the file is there and the
  storage raises. The deletion of its row fails: the row is there and the database raises.
\<close>

definition file_delete_fails :: "backend \<Rightarrow> image_store \<Rightarrow> editor_image \<Rightarrow> bool" where
  "file_delete_fails b s r =
     (image_name r \<noteq> [] \<and> image_name r \<in> files s \<and> storage_delete_error b (image_name r) \<noteq> None)"

definition row_delete_fails :: "backend \<Rightarrow> image_store \<Rightarrow> editor_image \<Rightarrow> bool" where
  "row_delete_fails b s r =
     (image_id r \<in> image_id ` set (rows s) \<and> record_delete_error b (image_id r) \<noteq> None)"

definition deletes_ok :: "backend \<Rightarrow> image_store \<Rightarrow> editor_image \<Rightarrow> bool" where
  "deletes_ok b s r = (\<not> file_delete_fails b s r \<and> \<not> row_delete_fails b s r)"

text \<open>The exception of a deletion that fails: that of the file if it fails, else that of the row.\<close>

definition delete_error :: "backend \<Rightarrow> image_store \<Rightarrow> editor_image \<Rightarrow> exn option" where
  "delete_error b s r =
     (if file_delete_fails b s r then storage_delete_error b (image_name r)
      else record_delete_error b (image_id r))"

text \<open>The store without the rows that have the id of one of the images, and without their files.\<close>

definition remove_images :: "editor_image list \<Rightarrow> image_store \<Rightarrow> image_store" where
  "remove_images imgs s =
     \<lparr>rows = filter (\<lambda>x. image_id x \<notin> image_id ` set imgs) (rows s),
      files = files s - (image_name ` set imgs - {[]})\<rparr>"

section \<open>Example data\<close>

text \<open>
  Two tables of digits: none beyond ASCII, and the Arabic-Indic digits. A catalog as in
  the example project: \<^verbatim>\<open>BlogPost\<close> with a \<^verbatim>\<open>CharField\<close> title, the editor's content field
  (a text field) and a boolean. Stores of three and of two images, and one where a second
  row names the file of image 1.
\<close>

definition ascii_digits :: unicode_digits where
  "ascii_digits = (\<lambda>_. None)"

definition arabic_indic :: unicode_digits where
  "arabic_indic = (\<lambda>c. if 1632 \<le> c \<and> c \<le> 1641 then Some (c - 1632) else None)"

definition img_tag :: "pystr \<Rightarrow> pystr" where
  "img_tag ds = str_of ''<img src=x '' @ marker_prefix @ ds @ [quote] @ str_of ''>''"

definition blog_post :: "model_instance list \<Rightarrow> model" where
  "blog_post posts =
     \<lparr>model_name = ''BlogPost'',
      get_fields = [\<lparr>field_name = ''title'', field_type = CharField\<rparr>,
                    \<lparr>field_name = ''content'', field_type = TextField\<rparr>,
                    \<lparr>field_name = ''published'', field_type = OtherField\<rparr>],
      objects = posts\<rparr>"

definition post_with :: "pystr \<Rightarrow> model_instance" where
  "post_with html =
     [''title'' \<mapsto> Value (Some (str_of ''Hello'')), ''content'' \<mapsto> Value (Some html)]"

definition broken_post :: model_instance where
  "broken_post =
     [''title'' \<mapsto> Value (Some (str_of ''Hello'')), ''content'' \<mapsto> Raises ''decode failure'']"

definition image1 :: editor_image where
  "image1 = \<lparr>image_id = 1, image_name = ''editor_uploads/a.jpg'', uploaded_at = 10\<rparr>"

definition image2 :: editor_image where
  "image2 = \<lparr>image_id = 2, image_name = ''editor_uploads/b.jpg'', uploaded_at = 20\<rparr>"

definition image3 :: editor_image where
  "image3 = \<lparr>image_id = 3, image_name = ''editor_uploads/c.jpg'', uploaded_at = 30\<rparr>"

definition image4 :: editor_image where
  "image4 = \<lparr>image_id = 4, image_name = ''editor_uploads/a.jpg'', uploaded_at = 40\<rparr>"

definition three_images :: image_store where
  "three_images =
     \<lparr>rows = [image1, image2, image3],
      files = {''editor_uploads/a.jpg'', ''editor_uploads/b.jpg'', ''editor_uploads/c.jpg''}\<rparr>"

definition two_images :: image_store where
  "two_images =
     \<lparr>rows = [image1, image2], files = {''editor_uploads/a.jpg'', ''editor_uploads/b.jpg''}\<rparr>"

definition shared_file :: image_store where
  "shared_file = \<lparr>rows = [image1, image4], files = {''editor_uploads/a.jpg''}\<rparr>"

text \<open>A marker of 4301 digits: 4300 zeros and the digit \<open>d\<close>.\<close>

definition long_marker :: "nat \<Rightarrow> pystr" where
  "long_marker d = marker_prefix @ replicate 4300 48 @ [d, quote]"

section \<open>The marker pattern finds every marker\<close>

lemma marker_prefix_code:
  "marker_prefix = [100, 97, 116, 97, 45, 105, 109, 97, 103, 101, 45, 105, 100, 61, 34]"
  by (simp add: marker_prefix_def str_of_def quote_def)

lemma strip_prefix_iff: "strip_prefix p s = Some r \<longleftrightarrow> s = p @ r"
  by (induction p s rule: strip_prefix.induct) auto

lemma quote_not_digit: "\<not> is_digit nd quote"
  by (simp add: is_digit_def decimal_digit_def quote_def)

lemma d_not_digit: "\<not> is_digit nd 100"
  by (simp add: is_digit_def decimal_digit_def)

lemma match_marker_iff:
  "match_marker nd s = Some (ds, rest) \<longleftrightarrow>
     s = marker_prefix @ ds @ quote # rest \<and> ds \<noteq> [] \<and> list_all (is_digit nd) ds"
proof
  assume m: "match_marker nd s = Some (ds, rest)"
  then obtain r where r: "strip_prefix marker_prefix s = Some r"
    and t: "takeWhile (is_digit nd) r = ds" and ne: "ds \<noteq> []"
    and d: "dropWhile (is_digit nd) r = quote # rest"
    by (auto simp: match_marker_def Let_def split: option.splits list.splits if_splits)
  have "r = takeWhile (is_digit nd) r @ dropWhile (is_digit nd) r" by simp
  with t d have "r = ds @ quote # rest" by simp
  moreover have "list_all (is_digit nd) ds"
    using t by (auto simp: list_all_iff dest: set_takeWhileD)
  ultimately show "s = marker_prefix @ ds @ quote # rest \<and> ds \<noteq> [] \<and> list_all (is_digit nd) ds"
    using r ne by (simp add: strip_prefix_iff)
next
  assume a: "s = marker_prefix @ ds @ quote # rest \<and> ds \<noteq> [] \<and> list_all (is_digit nd) ds"
  then have r: "strip_prefix marker_prefix s = Some (ds @ quote # rest)"
    by (simp add: strip_prefix_iff)
  from a have all: "\<forall>x\<in>set ds. is_digit nd x" by (simp add: list_all_iff)
  have t: "takeWhile (is_digit nd) (ds @ quote # rest) = ds"
    using all quote_not_digit by (simp add: takeWhile_append2)
  have d: "dropWhile (is_digit nd) (ds @ quote # rest) = quote # rest"
    using all quote_not_digit by (simp add: dropWhile_append2)
  from a r t d show "match_marker nd s = Some (ds, rest)"
    by (simp add: match_marker_def)
qed

lemma digits_then_quote_skip:
  assumes "list_all (is_digit nd) ds" and "ds @ quote # rest = p @ 100 # t"
  shows "\<exists>p'. rest = p' @ 100 # t"
  using assms
proof (induction ds arbitrary: p)
  case Nil
  then show ?case by (cases p) (auto simp: quote_def)
next
  case (Cons c ds)
  show ?case
  proof (cases p)
    case Nil
    with Cons.prems show ?thesis using d_not_digit by auto
  next
    case (Cons c' p')
    with Cons.prems Cons.IH [of p'] show ?thesis by auto
  qed
qed

lemma marker_no_overlap:
  assumes "marker_prefix @ ds @ quote # rest = pre @ 100 # 97 # t"
    and "pre \<noteq> []" and "list_all (is_digit nd) ds"
  shows "\<exists>pre'. rest = pre' @ 100 # 97 # t"
  using assms
  by (auto simp: marker_prefix_code quote_def Cons_eq_append_conv dest: digits_then_quote_skip[unfolded quote_def])

lemma findall_sound:
  "ds \<in> set (findall nd s) \<Longrightarrow>
     \<exists>pre post. s = pre @ marker_prefix @ ds @ quote # post \<and> ds \<noteq> [] \<and> list_all (is_digit nd) ds"
proof (induction nd s rule: findall.induct)
  case (1 nd)
  then show ?case by simp
next
  case (2 nd c cs)
  show ?case
  proof (cases "match_marker nd (c # cs)")
    case None
    with 2 obtain pre post where "cs = pre @ marker_prefix @ ds @ quote # post"
      and "ds \<noteq> []" and "list_all (is_digit nd) ds" by auto
    then have "c # cs = (c # pre) @ marker_prefix @ ds @ quote # post \<and> ds \<noteq> [] \<and> list_all (is_digit nd) ds"
      by simp
    then show ?thesis by blast
  next
    case (Some a)
    obtain ds' rest where a: "a = (ds', rest)" by (cases a)
    with Some have m: "match_marker nd (c # cs) = Some (ds', rest)" by simp
    then have shape: "c # cs = marker_prefix @ ds' @ quote # rest" "ds' \<noteq> []" "list_all (is_digit nd) ds'"
      by (simp_all add: match_marker_iff)
    from m "2.prems" have "ds = ds' \<or> ds \<in> set (findall nd rest)" by auto
    then show ?thesis
    proof
      assume "ds = ds'"
      with shape have "c # cs = [] @ marker_prefix @ ds @ quote # rest \<and> ds \<noteq> [] \<and> list_all (is_digit nd) ds"
        by simp
      then show ?thesis by blast
    next
      assume "ds \<in> set (findall nd rest)"
      with "2.IH"(2) [OF m refl] obtain pre post
        where "rest = pre @ marker_prefix @ ds @ quote # post" "ds \<noteq> []" "list_all (is_digit nd) ds"
        by auto
      with shape have "c # cs = (marker_prefix @ ds' @ quote # pre) @ marker_prefix @ ds @ quote # post
          \<and> ds \<noteq> [] \<and> list_all (is_digit nd) ds"
        by simp
      then show ?thesis by blast
    qed
  qed
qed

lemma findall_complete:
  "s = pre @ marker_prefix @ ds @ quote # post \<Longrightarrow> ds \<noteq> [] \<Longrightarrow> list_all (is_digit nd) ds
     \<Longrightarrow> ds \<in> set (findall nd s)"
proof (induction nd s arbitrary: pre rule: findall.induct)
  case (1 nd)
  then show ?case by (simp add: marker_prefix_code)
next
  case (2 nd c cs)
  show ?case
  proof (cases pre)
    case Nil
    with "2.prems" have "match_marker nd (c # cs) = Some (ds, post)"
      by (simp add: match_marker_iff)
    then show ?thesis by simp
  next
    case (Cons c' pre')
    with "2.prems" have cs: "cs = pre' @ marker_prefix @ ds @ quote # post" by simp
    show ?thesis
    proof (cases "match_marker nd (c # cs)")
      case None
      with "2.IH"(1) [OF None cs "2.prems"(2,3)] show ?thesis by simp
    next
      case (Some a)
      obtain ds' rest where a: "a = (ds', rest)" by (cases a)
      with Some have m: "match_marker nd (c # cs) = Some (ds', rest)" by simp
      then have shape: "c # cs = marker_prefix @ ds' @ quote # rest" "list_all (is_digit nd) ds'"
        by (simp_all add: match_marker_iff)
      obtain t where t: "marker_prefix @ ds @ quote # post = 100 # 97 # t"
        by (simp add: marker_prefix_code)
      from shape(1) "2.prems"(1) Cons t
      have "marker_prefix @ ds' @ quote # rest = pre @ 100 # 97 # t" by simp
      from marker_no_overlap [OF this _ shape(2)] Cons
      obtain pre'' where "rest = pre'' @ 100 # 97 # t" by auto
      with t have "rest = pre'' @ marker_prefix @ ds @ quote # post" by simp
      from "2.IH"(2) [OF m refl this "2.prems"(2,3)] m show ?thesis by simp
    qed
  qed
qed

lemma has_marker_iff:
  "has_marker nd html n \<longleftrightarrow> n \<in> int_of_digits nd ` set (findall nd html)"
proof
  assume "has_marker nd html n"
  then obtain pre ds post where "html = pre @ marker_prefix @ ds @ quote # post" "ds \<noteq> []"
    "list_all (is_digit nd) ds" "int_of_digits nd ds = n"
    unfolding has_marker_def by blast
  with findall_complete [of html pre ds post nd]
  show "n \<in> int_of_digits nd ` set (findall nd html)" by auto
next
  assume "n \<in> int_of_digits nd ` set (findall nd html)"
  then obtain ds where "ds \<in> set (findall nd html)" "n = int_of_digits nd ds" by auto
  with findall_sound [of ds nd html] show "has_marker nd html n"
    unfolding has_marker_def by blast
qed

lemma findall_at_marker:
  assumes "ds \<noteq> []" and "list_all (is_digit nd) ds"
  shows "findall nd (marker_prefix @ ds @ quote # post) = ds # findall nd post"
proof -
  obtain c cs where s: "marker_prefix @ ds @ quote # post = c # cs"
    by (simp add: marker_prefix_code)
  have "match_marker nd (c # cs) = Some (ds, post)"
    unfolding s [symmetric] using assms by (simp add: match_marker_iff)
  then have "findall nd (c # cs) = ds # findall nd post" by simp
  then show ?thesis by (simp only: s)
qed

section \<open>Adding the ids to the set\<close>

lemma update_ids_mono: "used \<subseteq> fst (update_ids nd ms used)"
proof (induction ms arbitrary: used)
  case Nil
  then show ?case by simp
next
  case (Cons d ms)
  have "insert n used \<subseteq> fst (update_ids nd ms (insert n used))" for n by (rule Cons.IH)
  then show ?case by (auto split: sum.splits)
qed

lemma update_ids_raise:
  "max_str_digits < length d \<Longrightarrow> update_ids nd (d # ms) used = (used, Some int_limit_error)"
  by (simp add: py_int_def)

lemma update_ids_ok:
  "list_all (\<lambda>d. length d \<le> max_str_digits) ms \<Longrightarrow>
     update_ids nd (ms @ rest) used = update_ids nd rest (used \<union> int_of_digits nd ` set ms)"
proof (induction ms arbitrary: used)
  case Nil
  then show ?case by simp
next
  case (Cons d ms)
  then have d: "length d \<le> max_str_digits"
    and ms: "list_all (\<lambda>d. length d \<le> max_str_digits) ms" by simp_all
  have "update_ids nd ((d # ms) @ rest) used = update_ids nd (ms @ rest) (insert (int_of_digits nd d) used)"
    using d by (simp add: py_int_def)
  also have "\<dots> = update_ids nd rest (insert (int_of_digits nd d) used \<union> int_of_digits nd ` set ms)"
    by (rule Cons.IH [OF ms])
  also have "insert (int_of_digits nd d) used \<union> int_of_digits nd ` set ms
      = used \<union> int_of_digits nd ` set (d # ms)" by auto
  finally show ?case .
qed

lemma update_ids_all_ok:
  assumes "list_all (\<lambda>d. length d \<le> max_str_digits) ms"
  shows "update_ids nd ms used = (used \<union> int_of_digits nd ` set ms, None)"
  using update_ids_ok [OF assms, of nd "[]" used] by simp

lemma update_ids_not_ok:
  "\<not> list_all (\<lambda>d. length d \<le> max_str_digits) ms \<Longrightarrow> snd (update_ids nd ms used) \<noteq> None"
proof (induction ms arbitrary: used)
  case Nil
  then show ?case by simp
next
  case (Cons d ms)
  show ?case
  proof (cases "length d \<le> max_str_digits")
    case True
    with Cons.prems have "\<not> list_all (\<lambda>d. length d \<le> max_str_digits) ms" by simp
    then have "snd (update_ids nd ms (insert (int_of_digits nd d) used)) \<noteq> None"
      by (rule Cons.IH)
    with True show ?thesis by (simp add: py_int_def)
  next
    case False
    then show ?thesis by (simp add: py_int_def)
  qed
qed

lemma update_ids_reaches:
  assumes "ds \<in> set ms" and "length ds \<le> max_str_digits"
    and "list_all (\<lambda>d. length d \<le> max_str_digits) (takeWhile (\<lambda>d. d \<noteq> ds) ms)"
  shows "int_of_digits nd ds \<in> fst (update_ids nd ms used)"
proof -
  let ?before = "takeWhile (\<lambda>d. d \<noteq> ds) ms"
  from assms(1) have "dropWhile (\<lambda>d. d \<noteq> ds) ms \<noteq> []" by (simp add: dropWhile_eq_Nil_conv)
  then obtain x ys where d: "dropWhile (\<lambda>d. d \<noteq> ds) ms = x # ys"
    by (cases "dropWhile (\<lambda>d. d \<noteq> ds) ms") auto
  with hd_dropWhile [of "\<lambda>d. d \<noteq> ds" ms] have "x = ds" by auto
  with d have ms: "ms = ?before @ ds # ys"
    using takeWhile_dropWhile_id [of "\<lambda>d. d \<noteq> ds" ms] by simp
  let ?u = "used \<union> int_of_digits nd ` set ?before"
  have "update_ids nd (?before @ ds # ys) used = update_ids nd (ds # ys) ?u"
    by (rule update_ids_ok [OF assms(3)])
  also have "\<dots> = update_ids nd ys (insert (int_of_digits nd ds) ?u)"
    using assms(2) by (simp add: py_int_def)
  finally have "update_ids nd ms used = update_ids nd ys (insert (int_of_digits nd ds) ?u)"
    using ms by simp
  moreover have "insert (int_of_digits nd ds) ?u \<subseteq> fst (update_ids nd ys (insert (int_of_digits nd ds) ?u))"
    by (rule update_ids_mono)
  ultimately show ?thesis by auto
qed

section \<open>The scan, loop by loop\<close>

lemma scan_instances_step_ok:
  assumes nr: "\<not> raises_on nd fname inst"
  shows "scan_instances nd fname (inst # rest) used =
       scan_instances nd fname rest
         (used \<union> {n. \<exists>html. inst fname = Some (Value (Some html)) \<and> has_marker nd html n})"
proof (cases "inst fname")
  case None
  have "{n. has_marker nd [] n} = {}" by (simp add: has_marker_iff)
  with None show ?thesis by (simp add: getattr_def falsy_def)
next
  case (Some a)
  show ?thesis
  proof (cases a)
    case (Raises x)
    with Some nr show ?thesis by (simp add: raises_on_def getattr_def)
  next
    case (Value v)
    show ?thesis
    proof (cases v)
      case None
      with Some Value show ?thesis by (simp add: getattr_def falsy_def)
    next
      case (Some html)
      note a = \<open>inst fname = Some a\<close> Value Some
      show ?thesis
      proof (cases "html = []")
        case True
        have "{n. has_marker nd [] n} = {}" by (simp add: has_marker_iff)
        with a True show ?thesis by (simp add: getattr_def falsy_def)
      next
        case False
        with nr a have "list_all (\<lambda>d. length d \<le> max_str_digits) (findall nd html)"
          by (simp add: raises_on_def getattr_def falsy_def)
        then have "update_ids nd (findall nd html) used
            = (used \<union> int_of_digits nd ` set (findall nd html), None)"
          by (rule update_ids_all_ok)
        moreover have "int_of_digits nd ` set (findall nd html) = {n. has_marker nd html n}"
          by (auto simp: has_marker_iff)
        ultimately show ?thesis using a False by (simp add: getattr_def falsy_def)
      qed
    qed
  qed
qed

lemma scan_instances_raise:
  "inst fname = Some (Raises e) \<Longrightarrow> scan_instances nd fname (inst # rest) used = (used, Some e)"
  by (simp add: getattr_def)

lemma scan_instances_ok:
  "list_all (\<lambda>i. \<not> raises_on nd fname i) is \<Longrightarrow>
     scan_instances nd fname (is @ rest) used =
       scan_instances nd fname rest
         (used \<union> {n. \<exists>i\<in>set is. \<exists>html. i fname = Some (Value (Some html)) \<and> has_marker nd html n})"
proof (induction "is" arbitrary: used)
  case Nil
  then show ?case by simp
next
  case (Cons i "is")
  let ?A = "{n. \<exists>html. i fname = Some (Value (Some html)) \<and> has_marker nd html n}"
  let ?B = "{n. \<exists>j\<in>set is. \<exists>html. j fname = Some (Value (Some html)) \<and> has_marker nd html n}"
  from Cons.prems have nr: "\<not> raises_on nd fname i"
    and ok: "list_all (\<lambda>i. \<not> raises_on nd fname i) is" by simp_all
  have "scan_instances nd fname ((i # is) @ rest) used = scan_instances nd fname (i # (is @ rest)) used"
    by (simp only: append_Cons)
  also have "\<dots> = scan_instances nd fname (is @ rest) (used \<union> ?A)"
    by (rule scan_instances_step_ok [OF nr])
  also have "\<dots> = scan_instances nd fname rest ((used \<union> ?A) \<union> ?B)"
    by (rule Cons.IH [OF ok])
  also have "(used \<union> ?A) \<union> ?B
      = used \<union> {n. \<exists>j\<in>set (i # is). \<exists>html. j fname = Some (Value (Some html)) \<and> has_marker nd html n}"
    by auto
  finally show ?case .
qed

lemma scan_instances_mono: "used \<subseteq> fst (scan_instances nd fname is used)"
proof (induction "is" arbitrary: used)
  case Nil
  then show ?case by simp
next
  case (Cons i "is")
  show ?case
  proof (cases "getattr i fname []")
    case (Inl e)
    then show ?thesis by simp
  next
    case (Inr content)
    show ?thesis
    proof (cases "falsy content")
      case True
      with Inr Cons.IH [of used] show ?thesis by simp
    next
      case False
      obtain u' e where u: "update_ids nd (findall nd (the content)) used = (u', e)"
        by (cases "update_ids nd (findall nd (the content)) used")
      with update_ids_mono [of used nd "findall nd (the content)"] have "used \<subseteq> u'" by simp
      moreover have "u' \<subseteq> fst (scan_instances nd fname is u')" by (rule Cons.IH)
      ultimately show ?thesis using Inr False u by (cases e) auto
    qed
  qed
qed

lemma scan_fields_fst:
  "fst (scan_fields nd m fs (used, out)) = fst (scan_fields nd m fs (used, out'))"
  by (induction fs arbitrary: used out out') (auto split: prod.splits option.splits)

lemma scan_fields_mono: "used \<subseteq> fst (scan_fields nd m fs (used, out))"
proof (induction fs arbitrary: used out)
  case Nil
  then show ?case by simp
next
  case (Cons f fs)
  obtain u' e where r: "scan_instances nd (field_name f) (objects m) used = (u', e)"
    by (cases "scan_instances nd (field_name f) (objects m) used")
  with scan_instances_mono [of used nd "field_name f" "objects m"] have "used \<subseteq> u'" by simp
  moreover have "u' \<subseteq> fst (scan_fields nd m fs (u', o'))" for o' by (rule Cons.IH)
  ultimately show ?case using r by (cases e) auto
qed

lemma scan_models_fst:
  "fst (scan_models nd c (used, k, out)) = fst (scan_models nd c (used, k', out'))"
proof (induction c arbitrary: used k out k' out')
  case Nil
  then show ?case by simp
next
  case (Cons m ms)
  show ?case
  proof (cases "text_fields m = []")
    case True
    with Cons show ?thesis by simp
  next
    case False
    obtain u1 o1 where a: "scan_fields nd m (text_fields m) (used, out @ [Checking (model_name m)]) = (u1, o1)"
      by (cases "scan_fields nd m (text_fields m) (used, out @ [Checking (model_name m)])")
    obtain u2 o2 where b: "scan_fields nd m (text_fields m) (used, out' @ [Checking (model_name m)]) = (u2, o2)"
      by (cases "scan_fields nd m (text_fields m) (used, out' @ [Checking (model_name m)])")
    from a b scan_fields_fst [of nd m "text_fields m" used "out @ [Checking (model_name m)]" "out' @ [Checking (model_name m)]"]
    have "u1 = u2" by simp
    with a b False Cons.IH [of u1 "k + 1" o1 "k' + 1" o2] show ?thesis by simp
  qed
qed

lemma scan_models_mono: "used \<subseteq> fst (scan_models nd c (used, k, out))"
proof (induction c arbitrary: used k out)
  case Nil
  then show ?case by simp
next
  case (Cons m ms)
  show ?case
  proof (cases "text_fields m = []")
    case True
    with Cons show ?thesis by simp
  next
    case False
    obtain u1 o1 where a: "scan_fields nd m (text_fields m) (used, out @ [Checking (model_name m)]) = (u1, o1)"
      by (cases "scan_fields nd m (text_fields m) (used, out @ [Checking (model_name m)])")
    with scan_fields_mono [of used nd m "text_fields m" "out @ [Checking (model_name m)]"]
    have "used \<subseteq> u1" by simp
    moreover have "u1 \<subseteq> fst (scan_models nd ms (u1, k + 1, o1))" by (rule Cons.IH)
    ultimately show ?thesis using a False by auto
  qed
qed

lemma scan_instances_all_ok:
  assumes "list_all (\<lambda>i. \<not> raises_on nd fname i) is"
  shows "scan_instances nd fname is used =
     (used \<union> {n. \<exists>i\<in>set is. \<exists>html. i fname = Some (Value (Some html)) \<and> has_marker nd html n}, None)"
  using scan_instances_ok [OF assms, of "[]" used] by simp

lemma scan_fields_all_ok:
  "list_all (\<lambda>f. list_all (\<lambda>i. \<not> raises_on nd (field_name f) i) (objects m)) fs \<Longrightarrow>
     scan_fields nd m fs (used, out) =
       (used \<union> {n. \<exists>f\<in>set fs. \<exists>i\<in>set (objects m). \<exists>html.
                     i (field_name f) = Some (Value (Some html)) \<and> has_marker nd html n}, out)"
proof (induction fs arbitrary: used)
  case Nil
  then show ?case by simp
next
  case (Cons f fs)
  let ?A = "{n. \<exists>i\<in>set (objects m). \<exists>html. i (field_name f) = Some (Value (Some html)) \<and> has_marker nd html n}"
  let ?B = "{n. \<exists>g\<in>set fs. \<exists>i\<in>set (objects m). \<exists>html.
                     i (field_name g) = Some (Value (Some html)) \<and> has_marker nd html n}"
  from Cons.prems have f: "list_all (\<lambda>i. \<not> raises_on nd (field_name f) i) (objects m)"
    and fs: "list_all (\<lambda>f. list_all (\<lambda>i. \<not> raises_on nd (field_name f) i) (objects m)) fs"
    by simp_all
  have "scan_fields nd m (f # fs) (used, out) = scan_fields nd m fs (used \<union> ?A, out)"
    by (simp add: scan_instances_all_ok [OF f])
  also have "\<dots> = ((used \<union> ?A) \<union> ?B, out)"
    by (rule Cons.IH [OF fs])
  also have "(used \<union> ?A) \<union> ?B = used \<union> {n. \<exists>g\<in>set (f # fs). \<exists>i\<in>set (objects m). \<exists>html.
                     i (field_name g) = Some (Value (Some html)) \<and> has_marker nd html n}"
    by auto
  finally show ?case .
qed

lemma referenced_ids_Nil: "referenced_ids nd [] = {}"
  by (simp add: referenced_ids_def)

lemma referenced_ids_Cons:
  "referenced_ids nd (m # ms) =
     {n. \<exists>f\<in>set (text_fields m). \<exists>i\<in>set (objects m). \<exists>html.
            i (field_name f) = Some (Value (Some html)) \<and> has_marker nd html n}
     \<union> referenced_ids nd ms"
  by (auto simp: referenced_ids_def)

lemma scan_models_all_ok:
  "readable nd c \<Longrightarrow> fst (scan_models nd c (used, k, out)) = used \<union> referenced_ids nd c"
proof (induction c arbitrary: used k out)
  case Nil
  then show ?case by (simp add: referenced_ids_Nil)
next
  case (Cons m ms)
  from Cons.prems have m: "list_all (\<lambda>f. list_all (\<lambda>i. \<not> raises_on nd (field_name f) i) (objects m)) (text_fields m)"
    and ms: "readable nd ms" by (simp_all add: readable_def)
  show ?case
  proof (cases "text_fields m = []")
    case True
    with Cons.IH [OF ms] show ?thesis by (simp add: referenced_ids_Cons)
  next
    case False
    with Cons.IH [OF ms] show ?thesis
      by (simp add: scan_fields_all_ok [OF m] referenced_ids_Cons Un_assoc)
  qed
qed

lemma used_image_ids_readable: "readable nd c \<Longrightarrow> used_image_ids nd c = referenced_ids nd c"
  by (simp add: used_image_ids_def scan_models_all_ok)

lemma scan_models_used: "fst (scan_models nd c ({}, k, out)) = used_image_ids nd c"
  unfolding used_image_ids_def by (rule scan_models_fst)

lemma scan_fields_reached:
  assumes "f \<in> set fs" and "\<And>used. n \<in> fst (scan_instances nd (field_name f) (objects m) used)"
  shows "n \<in> fst (scan_fields nd m fs (used, out))"
  using assms(1)
proof (induction fs arbitrary: used out)
  case Nil
  then show ?case by simp
next
  case (Cons g fs)
  obtain u' e where r: "scan_instances nd (field_name g) (objects m) used = (u', e)"
    by (cases "scan_instances nd (field_name g) (objects m) used")
  show ?case
  proof (cases "f = g")
    case True
    with assms(2) [of used] r have "n \<in> u'" by simp
    moreover have "u' \<subseteq> fst (scan_fields nd m fs (u', o'))" for o' by (rule scan_fields_mono)
    ultimately show ?thesis using r by (cases e) auto
  next
    case False
    with Cons.prems have "f \<in> set fs" by simp
    then have "n \<in> fst (scan_fields nd m fs (u', o'))" for o' by (rule Cons.IH)
    then show ?thesis using r by (cases e) auto
  qed
qed

lemma scan_models_reached:
  assumes "m \<in> set c" and "text_fields m \<noteq> []"
    and "\<And>used out. n \<in> fst (scan_fields nd m (text_fields m) (used, out))"
  shows "n \<in> fst (scan_models nd c (used, k, out))"
  using assms(1)
proof (induction c arbitrary: used k out)
  case Nil
  then show ?case by simp
next
  case (Cons m' ms)
  show ?case
  proof (cases "m = m'")
    case True
    obtain u1 o1 where a: "scan_fields nd m (text_fields m) (used, out @ [Checking (model_name m)]) = (u1, o1)"
      by (cases "scan_fields nd m (text_fields m) (used, out @ [Checking (model_name m)])")
    with assms(3) [of used "out @ [Checking (model_name m)]"] have "n \<in> u1" by simp
    moreover have "u1 \<subseteq> fst (scan_models nd ms (u1, k + 1, o1))" by (rule scan_models_mono)
    ultimately show ?thesis using a True assms(2) by auto
  next
    case False
    with Cons.prems have "m \<in> set ms" by simp
    then have "n \<in> fst (scan_models nd ms (u, k', o'))" for u k' o' by (rule Cons.IH)
    then show ?thesis by (auto split: prod.splits)
  qed
qed

lemma deleted_ids_append: "deleted_ids (xs @ ys) = deleted_ids xs @ deleted_ids ys"
  by (induction xs rule: deleted_ids.induct) simp_all

lemma deleted_ids_map_Deleting:
  "deleted_ids (map (\<lambda>r. Deleting (image_name r) (image_id r)) imgs) = map image_id imgs"
  by (induction imgs) simp_all

lemma deleted_ids_map_WouldDelete:
  "deleted_ids (map (\<lambda>r. WouldDelete (image_name r) (image_id r)) imgs) = []"
  by (induction imgs) simp_all

lemma scan_fields_out:
  "\<exists>ws. snd (scan_fields nd m fs (used, out)) = out @ ws \<and> deleted_ids ws = []"
proof (induction fs arbitrary: used out)
  case Nil
  then show ?case by simp
next
  case (Cons f fs)
  obtain u' e where r: "scan_instances nd (field_name f) (objects m) used = (u', e)"
    by (cases "scan_instances nd (field_name f) (objects m) used")
  show ?case
  proof (cases e)
    case None
    with r Cons.IH [of u' out] show ?thesis by simp
  next
    case (Some x)
    from Cons.IH [of u' "out @ [ErrorChecking (model_name m) (field_name f) x]"]
    obtain ws where "snd (scan_fields nd m fs (u', out @ [ErrorChecking (model_name m) (field_name f) x]))
        = out @ (ErrorChecking (model_name m) (field_name f) x # ws)" "deleted_ids ws = []"
      by auto
    with r Some show ?thesis by (intro exI [of _ "ErrorChecking (model_name m) (field_name f) x # ws"]) simp
  qed
qed

lemma scan_models_out:
  "\<exists>ws. snd (snd (scan_models nd c (used, k, out))) = out @ ws \<and> deleted_ids ws = []"
proof (induction c arbitrary: used k out)
  case Nil
  then show ?case by simp
next
  case (Cons m ms)
  show ?case
  proof (cases "text_fields m = []")
    case True
    with Cons.IH show ?thesis by simp
  next
    case False
    obtain u1 o1 where a: "scan_fields nd m (text_fields m) (used, out @ [Checking (model_name m)]) = (u1, o1)"
      by (cases "scan_fields nd m (text_fields m) (used, out @ [Checking (model_name m)])")
    with scan_fields_out [of nd m "text_fields m" used "out @ [Checking (model_name m)]"]
    obtain ws where o1: "o1 = out @ (Checking (model_name m) # ws)" and ws: "deleted_ids ws = []"
      by auto
    from Cons.IH [of u1 "k + 1" o1] obtain ws' where
      "snd (snd (scan_models nd ms (u1, k + 1, o1))) = o1 @ ws'" and ws': "deleted_ids ws' = []"
      by auto
    with o1 have "snd (snd (scan_models nd ms (u1, k + 1, o1))) = out @ (Checking (model_name m) # ws @ ws')"
      by simp
    moreover have "deleted_ids (Checking (model_name m) # ws @ ws') = []"
      using ws ws' by (simp add: deleted_ids_append)
    ultimately show ?thesis using a False by auto
  qed
qed

lemma delete_loop_out:
  "delete_loop b imgs s out =
     (case delete_loop b imgs s [] of (s', ws, e) \<Rightarrow> (s', out @ ws, e))"
proof (induction imgs arbitrary: s out)
  case Nil
  then show ?case by simp
next
  case (Cons r rs)
  show ?case
  proof (cases "fieldfile_delete b r s")
    case (Inl e)
    then show ?thesis by simp
  next
    case (Inr s1)
    show ?thesis
    proof (cases "model_delete b r s1")
      case (Inl e)
      with Inr show ?thesis by simp
    next
      case (Inr s2)
      from Cons.IH [of s2 "out @ [Deleting (image_name r) (image_id r)]"]
        Cons.IH [of s2 "[Deleting (image_name r) (image_id r)]"]
      show ?thesis using \<open>fieldfile_delete b r s = Inr s1\<close> Inr
        by (simp split: prod.splits)
    qed
  qed
qed

lemma set_objects_all: "set (objects_all s) = set (rows s)"
  by (simp add: objects_all_def)

lemma filter_objects_all:
  "filter P (objects_all s) = sort_key (\<lambda>r. - int (uploaded_at r)) (filter P (rows s))"
  by (simp add: objects_all_def filter_sort)

lemma scan_instances_reached:
  assumes "list_all (\<lambda>i. \<not> raises_on nd fname i) before"
    and "inst fname = Some (Value (Some html))" and "html \<noteq> []"
    and "\<And>u. n \<in> fst (update_ids nd (findall nd html) u)"
  shows "n \<in> fst (scan_instances nd fname (before @ inst # after) used)"
proof -
  let ?u = "used \<union> {n. \<exists>i\<in>set before. \<exists>html. i fname = Some (Value (Some html)) \<and> has_marker nd html n}"
  obtain u' e where u: "update_ids nd (findall nd html) ?u = (u', e)"
    by (cases "update_ids nd (findall nd html) ?u")
  with assms(4) [of ?u] have n: "n \<in> u'" by simp
  have "u' \<subseteq> fst (scan_instances nd fname after u')" by (rule scan_instances_mono)
  with n u assms(2,3) have "n \<in> fst (scan_instances nd fname (inst # after) ?u)"
    by (cases e) (auto simp: getattr_def falsy_def)
  moreover have "scan_instances nd fname (before @ inst # after) used
      = scan_instances nd fname (inst # after) ?u"
    by (rule scan_instances_ok [OF assms(1)])
  ultimately show ?thesis by simp
qed

section \<open>The deleting loop\<close>

lemma remove_images_append: "remove_images ys (remove_images xs s) = remove_images (xs @ ys) s"
  by (auto simp: remove_images_def image_Un)

lemma remove_images_Nil: "remove_images [] s = s"
  by (cases s) (simp add: remove_images_def)

lemma filter_other_ids:
  "image_id r \<notin> image_id ` set xs \<Longrightarrow> filter (\<lambda>x. image_id x \<noteq> image_id r) xs = xs"
  by (induction xs) auto

lemma delete_one_ok:
  assumes "deletes_ok b s r"
  shows "delete_loop b (r # rs) s out =
       delete_loop b rs (remove_images [r] s) (out @ [Deleting (image_name r) (image_id r)])"
proof -
  obtain rws fs where s: "s = \<lparr>rows = rws, files = fs\<rparr>" by (cases s) auto
  have f: "fieldfile_delete b r s = Inr \<lparr>rows = rws, files = fs - ({image_name r} - {[]})\<rparr>"
    using assms unfolding s
    by (auto simp: deletes_ok_def file_delete_fails_def fieldfile_delete_def)
  have m: "model_delete b r \<lparr>rows = rws, files = fs - ({image_name r} - {[]})\<rparr>
      = Inr \<lparr>rows = filter (\<lambda>x. image_id x \<noteq> image_id r) rws, files = fs - ({image_name r} - {[]})\<rparr>"
    using assms unfolding s
    by (auto simp: deletes_ok_def row_delete_fails_def model_delete_def filter_other_ids)
  have "remove_images [r] s
      = \<lparr>rows = filter (\<lambda>x. image_id x \<noteq> image_id r) rws, files = fs - ({image_name r} - {[]})\<rparr>"
    unfolding s by (simp add: remove_images_def)
  with f m show ?thesis by simp
qed

lemma delete_one_fails:
  assumes "\<not> deletes_ok b s r"
  shows "delete_loop b (r # rest) s out =
           (\<lparr>rows = rows s,
             files = files s - (if image_name r \<noteq> [] \<and> storage_delete_error b (image_name r) = None
                                then {image_name r} else {})\<rparr>,
            out @ [Deleting (image_name r) (image_id r)], delete_error b s r)
         \<and> delete_error b s r \<noteq> None"
proof (cases "file_delete_fails b s r")
  case True
  then obtain e where "storage_delete_error b (image_name r) = Some e"
    by (auto simp: file_delete_fails_def)
  with True show ?thesis
    by (cases s) (auto simp: file_delete_fails_def fieldfile_delete_def delete_error_def)
next
  case False
  with assms have rf: "row_delete_fails b s r" by (simp add: deletes_ok_def)
  then obtain e where e: "record_delete_error b (image_id r) = Some e"
    and p: "image_id r \<in> image_id ` set (rows s)"
    by (auto simp: row_delete_fails_def)
  obtain rws fs where s: "s = \<lparr>rows = rws, files = fs\<rparr>" by (cases s) auto
  let ?s1 = "\<lparr>rows = rws, files = fs - (if image_name r \<noteq> [] \<and> storage_delete_error b (image_name r) = None
                                then {image_name r} else {})\<rparr>"
  have f: "fieldfile_delete b r s = Inr ?s1"
    using False unfolding s
    by (auto simp: file_delete_fails_def fieldfile_delete_def)
  have m: "model_delete b r ?s1 = Inl e"
    using e p unfolding s by (simp add: model_delete_def)
  from f m e False show ?thesis
    unfolding s by (simp add: delete_error_def)
qed

lemma deletes_ok_remove: "deletes_ok b s x \<Longrightarrow> deletes_ok b (remove_images ys s) x"
  by (auto simp: deletes_ok_def file_delete_fails_def row_delete_fails_def remove_images_def)

lemma delete_loop_ok:
  "list_all (deletes_ok b s) before \<Longrightarrow>
     delete_loop b (before @ rest) s out =
       delete_loop b rest (remove_images before s)
         (out @ map (\<lambda>r. Deleting (image_name r) (image_id r)) before)"
proof (induction before arbitrary: s out)
  case Nil
  then show ?case by (simp add: remove_images_Nil)
next
  case (Cons r rs)
  then have r: "deletes_ok b s r" and rs: "list_all (deletes_ok b s) rs" by simp_all
  from rs have rs': "list_all (deletes_ok b (remove_images [r] s)) rs"
    by (simp add: list_all_iff deletes_ok_remove)
  have "delete_loop b ((r # rs) @ rest) s out = delete_loop b (r # (rs @ rest)) s out"
    by (simp only: append_Cons)
  also have "\<dots> = delete_loop b (rs @ rest) (remove_images [r] s) (out @ [Deleting (image_name r) (image_id r)])"
    by (rule delete_one_ok [OF r])
  also have "\<dots> = delete_loop b rest (remove_images rs (remove_images [r] s))
       ((out @ [Deleting (image_name r) (image_id r)]) @ map (\<lambda>r. Deleting (image_name r) (image_id r)) rs)"
    by (rule Cons.IH [OF rs'])
  finally show ?case by (simp add: remove_images_append)
qed

lemma delete_loop_all_ok:
  assumes "list_all (deletes_ok b s) imgs"
  shows "delete_loop b imgs s out =
           (remove_images imgs s, out @ map (\<lambda>r. Deleting (image_name r) (image_id r)) imgs, None)"
  using delete_loop_ok [OF assms, of "[]" out] by simp

lemma fails_after_ok:
  assumes "list_all (deletes_ok b s) before"
  shows "file_delete_fails b (remove_images before s) r = file_delete_fails b s r"
    and "row_delete_fails b (remove_images before s) r = row_delete_fails b s r"
proof -
  from assms have ok: "\<And>x. x \<in> set before \<Longrightarrow> deletes_ok b s x" by (simp add: list_all_iff)
  show "file_delete_fails b (remove_images before s) r = file_delete_fails b s r"
  proof
    assume "file_delete_fails b (remove_images before s) r"
    then show "file_delete_fails b s r"
      by (auto simp: file_delete_fails_def remove_images_def)
  next
    assume f: "file_delete_fails b s r"
    have "image_name r \<notin> image_name ` set before"
    proof
      assume "image_name r \<in> image_name ` set before"
      then obtain x where x: "x \<in> set before" "image_name x = image_name r" by auto
      with f have "file_delete_fails b s x" by (simp add: file_delete_fails_def)
      with ok [OF x(1)] show False by (simp add: deletes_ok_def)
    qed
    with f show "file_delete_fails b (remove_images before s) r"
      by (auto simp: file_delete_fails_def remove_images_def)
  qed
  show "row_delete_fails b (remove_images before s) r = row_delete_fails b s r"
  proof
    assume "row_delete_fails b (remove_images before s) r"
    then show "row_delete_fails b s r"
      by (auto simp: row_delete_fails_def remove_images_def)
  next
    assume f: "row_delete_fails b s r"
    have "image_id r \<notin> image_id ` set before"
    proof
      assume "image_id r \<in> image_id ` set before"
      then obtain x where x: "x \<in> set before" "image_id x = image_id r" by auto
      with f have "row_delete_fails b s x" by (simp add: row_delete_fails_def)
      with ok [OF x(1)] show False by (simp add: deletes_ok_def)
    qed
    with f show "row_delete_fails b (remove_images before s) r"
      by (auto simp: row_delete_fails_def remove_images_def)
  qed
qed

lemma delete_loop_first_failure:
  assumes "list_all (deletes_ok b s) before" and "\<not> deletes_ok b s r"
  shows "delete_loop b (before @ r # after) s out =
           (\<lparr>rows = filter (\<lambda>x. image_id x \<notin> image_id ` set before) (rows s),
             files = files s - (image_name ` set before - {[]})
                       - (if image_name r \<noteq> [] \<and> storage_delete_error b (image_name r) = None
                          then {image_name r} else {})\<rparr>,
            out @ map (\<lambda>r. Deleting (image_name r) (image_id r)) (before @ [r]),
            delete_error b s r)"
    and "delete_error b s r \<noteq> None"
proof -
  let ?s = "remove_images before s"
  from fails_after_ok [OF assms(1)] assms(2)
  have n: "\<not> deletes_ok b ?s r" and e: "delete_error b ?s r = delete_error b s r"
    by (simp_all add: deletes_ok_def delete_error_def)
  from delete_one_fails [OF n, of after "out @ map (\<lambda>r. Deleting (image_name r) (image_id r)) before"]
  have "delete_loop b (r # after) ?s (out @ map (\<lambda>r. Deleting (image_name r) (image_id r)) before) =
           (\<lparr>rows = rows ?s,
             files = files ?s - (if image_name r \<noteq> [] \<and> storage_delete_error b (image_name r) = None
                                then {image_name r} else {})\<rparr>,
            (out @ map (\<lambda>r. Deleting (image_name r) (image_id r)) before)
              @ [Deleting (image_name r) (image_id r)], delete_error b ?s r)"
    and ne: "delete_error b ?s r \<noteq> None" by simp_all
  with delete_loop_ok [OF assms(1), of "r # after" out] e
  show "delete_loop b (before @ r # after) s out =
           (\<lparr>rows = filter (\<lambda>x. image_id x \<notin> image_id ` set before) (rows s),
             files = files s - (image_name ` set before - {[]})
                       - (if image_name r \<noteq> [] \<and> storage_delete_error b (image_name r) = None
                          then {image_name r} else {})\<rparr>,
            out @ map (\<lambda>r. Deleting (image_name r) (image_id r)) (before @ [r]),
            delete_error b s r)"
    by (simp add: remove_images_def)
  from ne e show "delete_error b s r \<noteq> None" by simp
qed

lemma delete_loop_done:
  "snd (snd (delete_loop b imgs s out)) = None \<Longrightarrow>
     fst (delete_loop b imgs s out) = remove_images imgs s"
proof (induction imgs arbitrary: s out)
  case Nil
  then show ?case by (simp add: remove_images_Nil)
next
  case (Cons r rs)
  show ?case
  proof (cases "deletes_ok b s r")
    case True
    note step = delete_one_ok [OF True, of rs out]
    with Cons.prems have "snd (snd (delete_loop b rs (remove_images [r] s)
        (out @ [Deleting (image_name r) (image_id r)]))) = None" by simp
    then have "fst (delete_loop b rs (remove_images [r] s) (out @ [Deleting (image_name r) (image_id r)]))
        = remove_images rs (remove_images [r] s)" by (rule Cons.IH)
    with step show ?thesis by (simp add: remove_images_append)
  next
    case False
    from delete_one_fails [OF False, of rs out] Cons.prems show ?thesis by simp
  qed
qed

section \<open>The command, part by part\<close>

lemma scan_fst: "fst (scan nd c s) = used_image_ids nd c"
proof -
  obtain u k out where sc: "scan_models nd c ({}, 0, [Searching, FoundUploaded (length (objects_all s))]) = (u, k, out)"
    by (cases "scan_models nd c ({}, 0, [Searching, FoundUploaded (length (objects_all s))])")
  with scan_models_used [of nd c 0 "[Searching, FoundUploaded (length (objects_all s))]"]
  show ?thesis by (simp add: scan_def)
qed

lemma scan_deleted: "deleted_ids (snd (scan nd c s)) = []"
proof -
  obtain u k out where sc: "scan_models nd c ({}, 0, [Searching, FoundUploaded (length (objects_all s))]) = (u, k, out)"
    by (cases "scan_models nd c ({}, 0, [Searching, FoundUploaded (length (objects_all s))])")
  with scan_models_out [of nd c "{}" 0 "[Searching, FoundUploaded (length (objects_all s))]"]
  show ?thesis by (auto simp: scan_def deleted_ids_append)
qed

lemma handle_query_raises:
  assumes "exclude_query_error b (used_image_ids nd c) = Some e"
  shows "handle nd b dry_run c s = (s, snd (scan nd c s), Some e)"
proof -
  obtain u out where sc: "scan nd c s = (u, out)" by (cases "scan nd c s")
  with scan_fst [of nd c s] have "u = used_image_ids nd c" by simp
  with sc assms show ?thesis by (simp add: handle_def unused_images_def)
qed

lemma handle_query_ok:
  assumes "exclude_query_error b (used_image_ids nd c) = None"
  shows "handle nd b dry_run c s =
    (let un = filter (\<lambda>r. image_id r \<notin> used_image_ids nd c) (objects_all s);
         out = snd (scan nd c s)
     in if un = [] then (s, out @ [NoUnused], None)
        else if dry_run then
          (s, out @ [FoundUnused (length un), DryRunBanner]
                @ map (\<lambda>r. WouldDelete (image_name r) (image_id r)) un, None)
        else (case delete_loop b un s [] of
                (s', ws, e) \<Rightarrow>
                  (s', out @ FoundUnused (length un) # ws
                         @ (if e = None then [SuccessDeleted (length un)] else []), e)))"
proof -
  obtain u out where sc: "scan nd c s = (u, out)" by (cases "scan nd c s")
  with scan_fst [of nd c s] have u: "u = used_image_ids nd c" by simp
  let ?un = "filter (\<lambda>r. image_id r \<notin> used_image_ids nd c) (objects_all s)"
  obtain s' ws e where d: "delete_loop b ?un s [] = (s', ws, e)"
    by (cases "delete_loop b ?un s []")
  with delete_loop_out [of b ?un s "out @ [FoundUnused (length ?un)]"]
  have "delete_loop b ?un s (out @ [FoundUnused (length ?un)])
      = (s', out @ FoundUnused (length ?un) # ws, e)" by simp
  with sc u d assms show ?thesis
    by (cases e) (simp_all add: handle_def unused_images_def Let_def)
qed

lemma handle_ok:
  assumes "exclude_query_error b (used_image_ids nd c) = None"
    and "list_all (deletes_ok b s) (filter (\<lambda>r. image_id r \<notin> used_image_ids nd c) (objects_all s))"
  shows "fst (handle nd b False c s)
           = remove_images (filter (\<lambda>r. image_id r \<notin> used_image_ids nd c) (objects_all s)) s"
    and "snd (snd (handle nd b False c s)) = None"
    and "deleted_ids (fst (snd (handle nd b False c s)))
           = map image_id (filter (\<lambda>r. image_id r \<notin> used_image_ids nd c) (objects_all s))"
  by (simp_all add: handle_query_ok [OF assms(1)] delete_loop_all_ok [OF assms(2)] Let_def
      remove_images_Nil deleted_ids_append scan_deleted deleted_ids_map_Deleting)

lemma deletes_ok_sqlite: "deletes_ok (sqlite k) s r"
  by (simp add: deletes_ok_def file_delete_fails_def row_delete_fails_def sqlite_def)

lemma zeros_value: "foldl (\<lambda>a c. 10 * a + digit_value nd c) 0 (replicate k 48) = 0"
  by (induction k) (simp_all add: digit_value_def decimal_digit_def)

lemma long_marker_findall:
  "findall nd (long_marker d @ post) = (replicate 4300 48 @ [d]) # findall nd post"
  if "is_digit nd d"
proof -
  have "list_all (is_digit nd) (replicate 4300 48 @ [d])"
    using that by (simp add: list_all_iff is_digit_def decimal_digit_def)
  from findall_at_marker [OF _ this, of post] show ?thesis
    by (simp add: long_marker_def)
qed

lemma long_marker_raises:
  assumes "is_digit nd d"
  shows "update_ids nd (findall nd (long_marker d @ post)) used = (used, Some int_limit_error)"
  unfolding long_marker_findall [OF assms]
  by (rule update_ids_raise) (simp add: max_str_digits_def)

section \<open>Images that are no longer in the store\<close>

lemma delete_loop_warnings: "warnings (fst (snd (delete_loop b imgs s out))) = warnings out"
proof (induction imgs arbitrary: s out)
  case Nil
  then show ?case by simp
next
  case (Cons r rs)
  have w: "warnings (xs @ [Deleting n i]) = warnings xs" for xs n i
    by (induction xs rule: warnings.induct) simp_all
  from Cons.IH w show ?case by (simp split: sum.splits)
qed

lemma absent_after_step:
  assumes "image_name r \<notin> files s" and "image_id r \<notin> image_id ` set (rows s)"
  shows "fieldfile_delete b x s = Inr s1 \<Longrightarrow> image_name r \<notin> files s1 \<and> image_id r \<notin> image_id ` set (rows s1)"
    and "model_delete b x s = Inr s2 \<Longrightarrow> image_name r \<notin> files s2 \<and> image_id r \<notin> image_id ` set (rows s2)"
  using assms
  by (auto simp: fieldfile_delete_def model_delete_def split: if_splits option.splits)

lemma delete_loop_skip_absent:
  assumes "image_name r \<notin> files s" and "image_id r \<notin> image_id ` set (rows s)"
  shows "fst (delete_loop b (before @ r # after) s out) = fst (delete_loop b (before @ after) s out')
       \<and> snd (snd (delete_loop b (before @ r # after) s out))
           = snd (snd (delete_loop b (before @ after) s out'))"
  using assms
proof (induction before arbitrary: s out out')
  case Nil
  then have "delete_loop b (r # after) s out
      = delete_loop b after s (out @ [Deleting (image_name r) (image_id r)])"
    by (simp add: fieldfile_delete_def model_delete_def)
  moreover note delete_loop_out [of b after s "out @ [Deleting (image_name r) (image_id r)]"]
    delete_loop_out [of b after s out']
  ultimately show ?case by (simp split: prod.splits)
next
  case (Cons x before)
  show ?case
  proof (cases "fieldfile_delete b x s")
    case (Inl e)
    then show ?thesis by simp
  next
    case (Inr s1)
    note f = Inr
    from absent_after_step(1) [OF Cons.prems f]
    have a1: "image_name r \<notin> files s1" "image_id r \<notin> image_id ` set (rows s1)" by simp_all
    show ?thesis
    proof (cases "model_delete b x s1")
      case (Inl e)
      with f show ?thesis by simp
    next
      case (Inr s2)
      from absent_after_step(2) [OF a1 Inr]
      have a2: "image_name r \<notin> files s2" "image_id r \<notin> image_id ` set (rows s2)" by simp_all
      from Cons.IH [OF a2] f Inr show ?thesis by simp
    qed
  qed
qed

section \<open>Dry run\<close>

text \<open>
  C4. With \<^verbatim>\<open>--dry-run\<close> the command changes nothing: whatever the store, the catalog and
  the backend are, and however many unused images it lists, the store after the command is
  the store before it. The command ends with an exception exactly when the database raises
  for the query, and with that exception.
\<close>

theorem dry_run_never_mutates:
  "fst (handle nd b True catalog s) = s
   \<and> snd (snd (handle nd b True catalog s)) = exclude_query_error b (used_image_ids nd catalog)"
proof (cases "exclude_query_error b (used_image_ids nd catalog)")
  case None
  then show ?thesis by (simp add: handle_query_ok Let_def)
next
  case (Some e)
  then show ?thesis by (simp add: handle_query_raises)
qed

theorem dry_run_never_mutates_witness:
  "deleted_ids (fst (snd (handle ascii_digits (sqlite 999) False
      [blog_post [post_with (img_tag (str_of ''2''))]] three_images))) = [3, 1]
   \<and> fst (handle ascii_digits (sqlite 999) True
        [blog_post [post_with (img_tag (str_of ''2''))]] three_images) = three_images
   \<and> snd (snd (handle ascii_digits (sqlite 999) True
        [blog_post [post_with (img_tag (str_of ''2''))]] three_images)) = None"
proof -
  let ?c = "[blog_post [post_with (img_tag (str_of ''2''))]]"
  have 1: "deleted_ids (fst (snd (handle ascii_digits (sqlite 999) False ?c three_images))) = [3, 1]"
    by code_simp
  have 2: "exclude_query_error (sqlite 999) (used_image_ids ascii_digits ?c) = None"
    by code_simp
  note th = dry_run_never_mutates [of ascii_digits "sqlite 999" ?c three_images, unfolded 2]
  show ?thesis by (rule conjI [OF 1 th])
qed

section \<open>Deleting the unreferenced images\<close>

text \<open>
  The images are not deleted exactly as they are referenced. In the first store, image 4 is
  referenced and image 1 is not, and both name the same file: the command deletes that
  file with image 1, so image 4 stays without its file. In the second, the only post holds
  one marker, for image 2, written with 4301 digits: \<^verbatim>\<open>int\<close> refuses it, the scan finds no
  id in use, and the command deletes all three images. In the third run a post that cannot
  be read stands before the post that references image 3, and image 3 is deleted. In the
  fourth the storage refuses to delete the file of image 3, the first in the listing, and
  the unreferenced images 3 and 1 stay.
\<close>

theorem scan_deletes_exactly_unreferenced_counterexample:
  "used_image_ids ascii_digits [blog_post [post_with (img_tag (str_of ''4''))]] = {4}
   \<and> image_name image4 \<in> files shared_file
   \<and> handle ascii_digits (sqlite 999) False [blog_post [post_with (img_tag (str_of ''4''))]]
        shared_file
      = (\<lparr>rows = [image4], files = {}\<rparr>,
         [Searching, FoundUploaded 2, Checking ''BlogPost'', CheckedModels 1, FoundInUse 1,
          FoundUnused 1, Deleting ''editor_uploads/a.jpg'' 1, SuccessDeleted 1],
         None)
   \<and> has_marker ascii_digits (long_marker 50) 2
   \<and> used_image_ids ascii_digits [blog_post [post_with (long_marker 50)]] = {}
   \<and> rows (fst (handle ascii_digits (sqlite 999) False [blog_post [post_with (long_marker 50)]]
        three_images)) = []
   \<and> has_marker ascii_digits (img_tag (str_of ''3'')) 3
   \<and> rows (fst (handle ascii_digits (sqlite 999) False
        [blog_post [broken_post, post_with (img_tag (str_of ''3''))]] three_images)) = []
   \<and> used_image_ids ascii_digits [blog_post [post_with (img_tag (str_of ''2''))]] = {2}
   \<and> handle ascii_digits (failing_storage ''editor_uploads/c.jpg'' ''permission denied'') False
        [blog_post [post_with (img_tag (str_of ''2''))]] three_images
      = (three_images,
         [Searching, FoundUploaded 3, Checking ''BlogPost'', CheckedModels 1, FoundInUse 1,
          FoundUnused 2, Deleting ''editor_uploads/c.jpg'' 3],
         Some ''permission denied'')"
proof -
  let ?c = "[blog_post [post_with (long_marker 50)]]"
  have 1: "used_image_ids ascii_digits [blog_post [post_with (img_tag (str_of ''4''))]] = {4}"
    by code_simp
  have 2: "image_name image4 \<in> files shared_file" by code_simp
  have 3: "handle ascii_digits (sqlite 999) False [blog_post [post_with (img_tag (str_of ''4''))]]
        shared_file
      = (\<lparr>rows = [image4], files = {}\<rparr>,
         [Searching, FoundUploaded 2, Checking ''BlogPost'', CheckedModels 1, FoundInUse 1,
          FoundUnused 1, Deleting ''editor_uploads/a.jpg'' 1, SuccessDeleted 1],
         None)"
    by code_simp
  have d: "is_digit ascii_digits 50" by (simp add: is_digit_def decimal_digit_def)
  have "int_of_digits ascii_digits (replicate 4300 48 @ [50]) = 2"
    by (simp add: int_of_digits_def zeros_value) (simp add: digit_value_def decimal_digit_def)
  moreover have "list_all (is_digit ascii_digits) (replicate 4300 48 @ [50])"
    by (simp add: list_all_iff is_digit_def decimal_digit_def)
  moreover have "long_marker 50 = [] @ marker_prefix @ (replicate 4300 48 @ [50]) @ quote # []"
    by (simp add: long_marker_def)
  ultimately have 4: "has_marker ascii_digits (long_marker 50) 2"
    unfolding has_marker_def by blast
  have t: "findall ascii_digits (str_of ''Hello'') = []" by code_simp
  have r: "update_ids ascii_digits (findall ascii_digits (long_marker 50)) {} = ({}, Some int_limit_error)"
    using long_marker_raises [OF d, of "[]" "{}"] by simp
  have ne: "long_marker 50 \<noteq> []" "str_of ''Hello'' \<noteq> []"
    by (simp_all add: long_marker_def str_of_def)
  have 5: "used_image_ids ascii_digits ?c = {}"
    by (simp add: used_image_ids_def blog_post_def text_fields_def is_text_field_def post_with_def
        getattr_def falsy_def t r ne)
  have q: "exclude_query_error (sqlite 999) (used_image_ids ascii_digits ?c) = None"
    unfolding 5 by (simp add: sqlite_def sqlite_query_error_def)
  have ok: "list_all (deletes_ok (sqlite 999) three_images)
      (filter (\<lambda>r. image_id r \<notin> used_image_ids ascii_digits ?c) (objects_all three_images))"
    by (simp add: list_all_iff deletes_ok_sqlite)
  have 6: "rows (fst (handle ascii_digits (sqlite 999) False ?c three_images)) = []"
    unfolding handle_ok(1) [OF q ok] 5 by (simp add: remove_images_def set_objects_all)
  have "int_of_digits ascii_digits (str_of ''3'') = 3" by code_simp
  moreover have "list_all (is_digit ascii_digits) (str_of ''3'')" by code_simp
  moreover have "img_tag (str_of ''3'')
      = str_of ''<img src=x '' @ marker_prefix @ str_of ''3'' @ quote # str_of ''>''"
    by (simp add: img_tag_def)
  moreover have "str_of ''3'' \<noteq> []" by (simp add: str_of_def)
  ultimately have 7: "has_marker ascii_digits (img_tag (str_of ''3'')) 3"
    unfolding has_marker_def by blast
  have 8: "rows (fst (handle ascii_digits (sqlite 999) False
        [blog_post [broken_post, post_with (img_tag (str_of ''3''))]] three_images)) = []"
    by code_simp
  have 9: "used_image_ids ascii_digits [blog_post [post_with (img_tag (str_of ''2''))]] = {2}"
    by code_simp
  have 10: "handle ascii_digits (failing_storage ''editor_uploads/c.jpg'' ''permission denied'') False
        [blog_post [post_with (img_tag (str_of ''2''))]] three_images
      = (three_images,
         [Searching, FoundUploaded 3, Checking ''BlogPost'', CheckedModels 1, FoundInUse 1,
          FoundUnused 2, Deleting ''editor_uploads/c.jpg'' 3],
         Some ''permission denied'')"
    by code_simp
  show ?thesis by (intro conjI 1 2 3 4 5 6 7 8 9 10)
qed

text \<open>
  C1, as the code has it. Take any store and any catalog in which the loop body raises for
  no text attribute (no read raises and no marker has more than 4300 digits), and a backend
  in which the query does not raise and no deletion of an unreferenced image fails. Let
  \<open>R\<close> be the set of ids with a marker in some text attribute of some instance of some
  registered model. After the command without \<^verbatim>\<open>--dry-run\<close> the table holds exactly the
  rows with an id in \<open>R\<close>, in their order and unchanged; the files named by the other rows
  are gone and no other file is, so the file of a row with an id in \<open>R\<close> is still there
  unless a row with an id outside \<open>R\<close> names the same file; the ids reported as deleted are
  the ids of the store that are not in \<open>R\<close>; and the command ends without an exception.
\<close>

theorem scan_deletes_exactly_unreferenced:
  assumes "readable nd catalog"
    and "exclude_query_error b (referenced_ids nd catalog) = None"
    and "list_all (deletes_ok b s)
           (filter (\<lambda>r. image_id r \<notin> referenced_ids nd catalog) (objects_all s))"
  shows "rows (fst (handle nd b False catalog s))
           = filter (\<lambda>r. image_id r \<in> referenced_ids nd catalog) (rows s)
       \<and> files (fst (handle nd b False catalog s))
           = files s - set (map image_name
               (filter (\<lambda>r. image_id r \<notin> referenced_ids nd catalog \<and> image_name r \<noteq> []) (rows s)))
       \<and> (\<forall>r\<in>set (rows s). image_id r \<in> referenced_ids nd catalog \<longrightarrow> image_name r \<in> files s \<longrightarrow>
            (\<forall>u\<in>set (rows s). image_id u \<notin> referenced_ids nd catalog \<longrightarrow> image_name u \<noteq> image_name r)
            \<longrightarrow> image_name r \<in> files (fst (handle nd b False catalog s)))
       \<and> set (deleted_ids (fst (snd (handle nd b False catalog s))))
           = image_id ` set (rows s) - referenced_ids nd catalog
       \<and> snd (snd (handle nd b False catalog s)) = None"
proof -
  let ?R = "referenced_ids nd catalog"
  let ?un = "filter (\<lambda>r. image_id r \<notin> ?R) (objects_all s)"
  from assms(1) have u: "used_image_ids nd catalog = ?R" by (rule used_image_ids_readable)
  from assms(2) u have q: "exclude_query_error b (used_image_ids nd catalog) = None" by simp
  from assms(3) u have ok: "list_all (deletes_ok b s)
      (filter (\<lambda>r. image_id r \<notin> used_image_ids nd catalog) (objects_all s))" by simp
  note h = handle_ok [OF q ok, unfolded u]
  have ids: "image_id ` set ?un = image_id ` set (rows s) - ?R"
    by (auto simp: set_objects_all)
  have "filter (\<lambda>x. image_id x \<notin> image_id ` set ?un) (rows s)
      = filter (\<lambda>r. image_id r \<in> ?R) (rows s)"
    by (rule filter_cong [OF refl]) (use ids in auto)
  then have a: "rows (remove_images ?un s) = filter (\<lambda>r. image_id r \<in> ?R) (rows s)"
    by (simp only: remove_images_def image_store.select_convs)
  have b: "files (remove_images ?un s)
      = files s - set (map image_name (filter (\<lambda>r. image_id r \<notin> ?R \<and> image_name r \<noteq> []) (rows s)))"
    unfolding remove_images_def by (auto simp: set_objects_all)
  have c: "\<forall>r\<in>set (rows s). image_id r \<in> ?R \<longrightarrow> image_name r \<in> files s \<longrightarrow>
            (\<forall>u\<in>set (rows s). image_id u \<notin> ?R \<longrightarrow> image_name u \<noteq> image_name r)
            \<longrightarrow> image_name r \<in> files (remove_images ?un s)"
    unfolding b by auto
  have d: "set (map image_id ?un) = image_id ` set (rows s) - ?R"
    using ids by simp
  show ?thesis
    unfolding h(1) h(2) h(3) by (intro conjI a b c d refl)
qed

theorem scan_deletes_exactly_unreferenced_witness:
  "readable arabic_indic [blog_post [post_with (img_tag [1634])]]
   \<and> referenced_ids arabic_indic [blog_post [post_with (img_tag [1634])]] = {2}
   \<and> rows (fst (handle arabic_indic (sqlite 999) False [blog_post [post_with (img_tag [1634])]]
        three_images)) = [image2]
   \<and> files (fst (handle arabic_indic (sqlite 999) False [blog_post [post_with (img_tag [1634])]]
        three_images)) = {''editor_uploads/b.jpg''}
   \<and> set (deleted_ids (fst (snd (handle arabic_indic (sqlite 999) False
        [blog_post [post_with (img_tag [1634])]] three_images)))) = {1, 3}
   \<and> snd (snd (handle arabic_indic (sqlite 999) False [blog_post [post_with (img_tag [1634])]]
        three_images)) = None"
proof -
  let ?c = "[blog_post [post_with (img_tag [1634])]]"
  have r: "readable arabic_indic ?c" by code_simp
  have "used_image_ids arabic_indic ?c = {2}" by code_simp
  with used_image_ids_readable [OF r] have R: "referenced_ids arabic_indic ?c = {2}" by simp
  have q: "exclude_query_error (sqlite 999) (referenced_ids arabic_indic ?c) = None"
    unfolding R by code_simp
  have ok: "list_all (deletes_ok (sqlite 999) three_images)
      (filter (\<lambda>r. image_id r \<notin> referenced_ids arabic_indic ?c) (objects_all three_images))"
    by (simp add: list_all_iff deletes_ok_sqlite)
  have a: "filter (\<lambda>r. image_id r \<in> {2}) (rows three_images) = [image2]"
    by (simp add: three_images_def image1_def image2_def image3_def)
  have b: "files three_images - set (map image_name
      (filter (\<lambda>r. image_id r \<notin> {2} \<and> image_name r \<noteq> []) (rows three_images)))
      = {''editor_uploads/b.jpg''}"
    by (auto simp: three_images_def image1_def image2_def image3_def)
  have c: "image_id ` set (rows three_images) - {2} = {1, 3}"
    by (auto simp: three_images_def image1_def image2_def image3_def)
  note th = scan_deletes_exactly_unreferenced [OF r q ok, unfolded R a b c]
  from th have 1: "rows (fst (handle arabic_indic (sqlite 999) False ?c three_images)) = [image2]"
    by (rule conjunct1)
  from th have 2: "files (fst (handle arabic_indic (sqlite 999) False ?c three_images))
      = {''editor_uploads/b.jpg''}"
    by (elim conjE)
  from th have 3: "set (deleted_ids (fst (snd (handle arabic_indic (sqlite 999) False ?c
      three_images)))) = {1, 3}"
    by (elim conjE)
  from th have 4: "snd (snd (handle arabic_indic (sqlite 999) False ?c three_images)) = None"
    by (elim conjE)
  show ?thesis by (intro conjI r R 1 2 3 4)
qed

section \<open>Markers\<close>

text \<open>
  A marker is not counted when \<^verbatim>\<open>int\<close> refuses a marker found before it. Here the content
  of the only post holds a marker of 4301 digits and, after it, a marker for image 2: the
  conversion of the first raises inside the \<^verbatim>\<open>try\<close>, the scan writes a warning and finds
  no id in use, and the command deletes image 2 with the others.
\<close>

theorem marker_after_long_marker_counterexample:
  "has_marker ascii_digits (long_marker 48 @ img_tag (str_of ''2'')) 2
   \<and> used_image_ids ascii_digits [blog_post [post_with (long_marker 48 @ img_tag (str_of ''2''))]]
       = {}
   \<and> scan_fields ascii_digits (blog_post [post_with (long_marker 48 @ img_tag (str_of ''2''))])
        [\<lparr>field_name = ''content'', field_type = TextField\<rparr>] ({}, [])
       = ({}, [ErrorChecking ''BlogPost'' ''content'' int_limit_error])
   \<and> rows (fst (handle ascii_digits (sqlite 999) False
        [blog_post [post_with (long_marker 48 @ img_tag (str_of ''2''))]] three_images)) = []"
proof -
  let ?html = "long_marker 48 @ img_tag (str_of ''2'')"
  let ?c = "[blog_post [post_with ?html]]"
  have d: "is_digit ascii_digits 48" by (simp add: is_digit_def decimal_digit_def)
  have "int_of_digits ascii_digits [50] = 2"
    by (simp add: int_of_digits_def digit_value_def decimal_digit_def)
  moreover have "list_all (is_digit ascii_digits) [50]"
    by (simp add: is_digit_def decimal_digit_def)
  moreover have "?html = (long_marker 48 @ str_of ''<img src=x '') @ marker_prefix @ [50] @ quote # str_of ''>''"
    by (simp add: img_tag_def str_of_def)
  ultimately have 1: "has_marker ascii_digits ?html 2"
    unfolding has_marker_def by blast
  have t: "findall ascii_digits (str_of ''Hello'') = []" by code_simp
  have r: "update_ids ascii_digits (findall ascii_digits ?html) {} = ({}, Some int_limit_error)"
    by (rule long_marker_raises [OF d])
  have ne: "long_marker 48 \<noteq> []" "str_of ''Hello'' \<noteq> []"
    by (simp_all add: long_marker_def str_of_def)
  have 2: "used_image_ids ascii_digits ?c = {}"
    by (simp add: used_image_ids_def blog_post_def text_fields_def is_text_field_def post_with_def
        getattr_def falsy_def t r ne)
  have 3: "scan_fields ascii_digits (blog_post [post_with ?html])
        [\<lparr>field_name = ''content'', field_type = TextField\<rparr>] ({}, [])
       = ({}, [ErrorChecking ''BlogPost'' ''content'' int_limit_error])"
    by (simp add: blog_post_def post_with_def getattr_def falsy_def r ne)
  have q: "exclude_query_error (sqlite 999) (used_image_ids ascii_digits ?c) = None"
    unfolding 2 by (simp add: sqlite_def sqlite_query_error_def)
  have ok: "list_all (deletes_ok (sqlite 999) three_images)
      (filter (\<lambda>r. image_id r \<notin> used_image_ids ascii_digits ?c) (objects_all three_images))"
    by (simp add: list_all_iff deletes_ok_sqlite)
  have 4: "rows (fst (handle ascii_digits (sqlite 999) False ?c three_images)) = []"
    unfolding handle_ok(1) [OF q ok] 2 by (simp add: remove_images_def set_objects_all)
  show ?thesis by (intro conjI 1 2 3 4)
qed

text \<open>
  C5, as the code has it. Let a text attribute (a \<^verbatim>\<open>TextField\<close> or \<^verbatim>\<open>CharField\<close>, of any
  name) of an instance of any registered model hold a string in which \<^verbatim>\<open>data-image-id="\<close>,
  a non-empty string of digits and a closing quote stand somewhere. Let the scan come to
  this marker: the loop body raises for no instance before this one, and neither this
  marker nor a marker the pattern finds before it in the string has more than 4300 digits.
  Then the decimal value of the digits is in the set of used ids. The ids are collected in
  a set, so neither their order nor their number of occurrences is kept.
\<close>

theorem marker_marks_image_used:
  assumes "m \<in> set catalog" and "f \<in> set (get_fields m)" and "is_text_field f"
    and "objects m = before @ inst # after"
    and "list_all (\<lambda>i. \<not> raises_on nd (field_name f) i) before"
    and "inst (field_name f) = Some (Value (Some html))"
    and "html = pre @ marker_prefix @ ds @ quote # post" and "ds \<noteq> []"
    and "list_all (is_digit nd) ds"
    and "length ds \<le> max_str_digits"
    and "list_all (\<lambda>d. length d \<le> max_str_digits) (takeWhile (\<lambda>d. d \<noteq> ds) (findall nd html))"
  shows "int_of_digits nd ds \<in> used_image_ids nd catalog"
proof -
  from assms(2,3) have f: "f \<in> set (text_fields m)" by (simp add: text_fields_def)
  then have ne: "text_fields m \<noteq> []" by auto
  from assms(7) have html: "html \<noteq> []" by (simp add: marker_prefix_code)
  have found: "ds \<in> set (findall nd html)"
    by (rule findall_complete [OF assms(7,8,9)])
  have upd: "int_of_digits nd ds \<in> fst (update_ids nd (findall nd html) u)" for u
    by (rule update_ids_reaches [OF found assms(10,11)])
  have "int_of_digits nd ds \<in> fst (scan_models nd catalog (used, k, out))" for used k out
  proof (rule scan_models_reached [OF assms(1) ne])
    fix used out
    show "int_of_digits nd ds \<in> fst (scan_fields nd m (text_fields m) (used, out))"
    proof (rule scan_fields_reached [OF f])
      fix used
      show "int_of_digits nd ds \<in> fst (scan_instances nd (field_name f) (objects m) used)"
        unfolding assms(4)
        by (rule scan_instances_reached
              [where fname = "field_name f" and inst = inst and html = html,
               OF assms(5,6) html upd])
    qed
  qed
  then show ?thesis unfolding used_image_ids_def .
qed

theorem marker_marks_image_used_witness:
  "is_text_field \<lparr>field_name = ''content'', field_type = TextField\<rparr>
   \<and> list_all (is_digit arabic_indic) [1636, 1634] \<and> int_of_digits arabic_indic [1636, 1634] = 42
   \<and> 42 \<in> used_image_ids arabic_indic
        [blog_post [post_with (str_of ''<p>no image</p>''), post_with (img_tag [1636, 1634])]]"
proof -
  let ?f = "\<lparr>field_name = ''content'', field_type = TextField\<rparr>"
  let ?m = "blog_post [post_with (str_of ''<p>no image</p>''), post_with (img_tag [1636, 1634])]"
  have 1: "?m \<in> set [?m]" by simp
  have 2: "?f \<in> set (get_fields ?m)" by (simp add: blog_post_def)
  have 3: "is_text_field ?f" by (simp add: is_text_field_def)
  have 4: "objects ?m = [post_with (str_of ''<p>no image</p>'')] @ post_with (img_tag [1636, 1634]) # []"
    by (simp add: blog_post_def)
  have 5: "list_all (\<lambda>i. \<not> raises_on arabic_indic (field_name ?f) i) [post_with (str_of ''<p>no image</p>'')]"
    by code_simp
  have 6: "post_with (img_tag [1636, 1634]) (field_name ?f) = Some (Value (Some (img_tag [1636, 1634])))"
    by (simp add: post_with_def)
  have 7: "img_tag [1636, 1634] = str_of ''<img src=x '' @ marker_prefix @ [1636, 1634] @ quote # str_of ''>''"
    by (simp add: img_tag_def)
  have 8: "[1636, 1634] \<noteq> ([] :: pystr)" by simp
  have 9: "list_all (is_digit arabic_indic) [1636, 1634]" by code_simp
  have 10: "length [1636, 1634 :: nat] \<le> max_str_digits" by (simp add: max_str_digits_def)
  have 11: "list_all (\<lambda>d. length d \<le> max_str_digits)
      (takeWhile (\<lambda>d. d \<noteq> [1636, 1634]) (findall arabic_indic (img_tag [1636, 1634])))"
    by code_simp
  have 12: "int_of_digits arabic_indic [1636, 1634] = 42" by code_simp
  note th = marker_marks_image_used [OF 1 2 3 4 5 6 7 8 9 10 11, unfolded 12]
  show ?thesis by (intro conjI 3 9 12 th)
qed

section \<open>Empty and missing values\<close>

text \<open>
  C10. An instance whose attribute is missing, \<^verbatim>\<open>None\<close> or the empty string is passed
  over: the loop over the instances gives the same set of ids and the same exception (or
  none) as the loop over the list without that instance. It adds no id, causes no warning,
  and the instances after it are scanned as before.
\<close>

theorem empty_attribute_skipped:
  assumes "inst fname = None \<or> inst fname = Some (Value None) \<or> inst fname = Some (Value (Some []))"
  shows "scan_instances nd fname (before @ inst # after) used
           = scan_instances nd fname (before @ after) used"
proof (induction before arbitrary: used)
  case Nil
  from assms show ?case by (auto simp: getattr_def falsy_def)
next
  case (Cons i before)
  then show ?case by (simp split: sum.splits prod.splits option.splits)
qed

theorem empty_attribute_skipped_witness:
  "scan_instances ascii_digits ''content''
     [[''title'' \<mapsto> Value (Some (str_of ''Hello''))], post_with (img_tag (str_of ''2''))] {}
     = scan_instances ascii_digits ''content'' [post_with (img_tag (str_of ''2''))] {}
   \<and> scan_instances ascii_digits ''content''
     [[''content'' \<mapsto> Value None], post_with (img_tag (str_of ''2''))] {}
     = scan_instances ascii_digits ''content'' [post_with (img_tag (str_of ''2''))] {}
   \<and> scan_instances ascii_digits ''content'' [post_with [], post_with (img_tag (str_of ''2''))] {}
     = ({2}, None)"
proof -
  let ?p = "post_with (img_tag (str_of ''2''))"
  have 1: "[''title'' \<mapsto> Value (Some (str_of ''Hello''))] ''content'' = None" by simp
  have 2: "[''content'' \<mapsto> Value None] ''content'' = Some (Value None)" by simp
  have 3: "post_with [] ''content'' = Some (Value (Some []))" by (simp add: post_with_def)
  have 4: "scan_instances ascii_digits ''content'' [?p] {} = ({2}, None)" by code_simp
  have a: "scan_instances ascii_digits ''content''
      [[''title'' \<mapsto> Value (Some (str_of ''Hello''))], ?p] {}
      = scan_instances ascii_digits ''content'' [?p] {}"
    using empty_attribute_skipped [of "[''title'' \<mapsto> Value (Some (str_of ''Hello''))]" "''content''"
      ascii_digits "[]" "[?p]" "{}"] 1 by simp
  have b: "scan_instances ascii_digits ''content'' [[''content'' \<mapsto> Value None], ?p] {}
      = scan_instances ascii_digits ''content'' [?p] {}"
    using empty_attribute_skipped [of "[''content'' \<mapsto> Value None]" "''content''"
      ascii_digits "[]" "[?p]" "{}"] 2 by simp
  have c: "scan_instances ascii_digits ''content'' [post_with [], ?p] {} = ({2}, None)"
    using empty_attribute_skipped [of "post_with []" "''content''" ascii_digits "[]" "[?p]" "{}"] 3 4
    by simp
  show ?thesis by (intro conjI a b c)
qed

section \<open>Ids of no stored image\<close>

text \<open>
  The used ids are the parameters of the query for the unused images, and the query is
  outside any \<^verbatim>\<open>try\<close>. Here a second post holds a marker whose id, \<open>2 ^ 63\<close>, is the id of
  no image: sqlite refuses it, the command ends with that exception and deletes nothing.
  Without that post it deletes images 3 and 1.
\<close>

theorem unknown_ids_ignored_counterexample:
  "int_of_digits ascii_digits (str_of ''9223372036854775808'') = 2 ^ 63
   \<and> handle ascii_digits (sqlite 999) False
        [blog_post [post_with (img_tag (str_of ''2'')),
                    post_with (img_tag (str_of ''9223372036854775808''))]] three_images
      = (three_images,
         [Searching, FoundUploaded 3, Checking ''BlogPost'', CheckedModels 1, FoundInUse 2],
         Some ''OverflowError: Python int too large to convert to SQLite INTEGER'')
   \<and> deleted_ids (fst (snd (handle ascii_digits (sqlite 999) False
        [blog_post [post_with (img_tag (str_of ''2''))]] three_images))) = [3, 1]
   \<and> snd (snd (handle ascii_digits (sqlite 999) False
        [blog_post [post_with (img_tag (str_of ''2''))]] three_images)) = None"
  by code_simp

text \<open>
  C9, as the code has it. Where the database takes the used ids as parameters of the query,
  used ids that are the id of no stored image change nothing: if one catalog yields the
  used ids of another and, in addition, ids \<open>X\<close> none of which is the id of a row of the
  store, and the query raises for neither set, then with either catalog the command leaves
  the same store, ends with the same exception or none, and reports the same deleted ids,
  with and without \<^verbatim>\<open>--dry-run\<close>.
\<close>

theorem unknown_ids_ignored:
  assumes "used_image_ids nd c' = used_image_ids nd c \<union> X"
    and "X \<inter> image_id ` set (rows s) = {}"
    and "exclude_query_error b (used_image_ids nd c') = None"
    and "exclude_query_error b (used_image_ids nd c) = None"
  shows "fst (handle nd b dry_run c' s) = fst (handle nd b dry_run c s)
       \<and> snd (snd (handle nd b dry_run c' s)) = snd (snd (handle nd b dry_run c s))
       \<and> deleted_ids (fst (snd (handle nd b dry_run c' s)))
           = deleted_ids (fst (snd (handle nd b dry_run c s)))"
proof -
  have "filter (\<lambda>r. image_id r \<notin> used_image_ids nd c \<union> X) (objects_all s)
      = filter (\<lambda>r. image_id r \<notin> used_image_ids nd c) (objects_all s)"
    using assms(2) by (intro filter_cong) (auto simp: set_objects_all)
  with assms(1) have "filter (\<lambda>r. image_id r \<notin> used_image_ids nd c') (objects_all s)
      = filter (\<lambda>r. image_id r \<notin> used_image_ids nd c) (objects_all s)" by simp
  then show ?thesis
    by (simp add: handle_query_ok [OF assms(3)] handle_query_ok [OF assms(4)] Let_def
        deleted_ids_append scan_deleted deleted_ids_map_WouldDelete split: prod.splits)
qed

theorem unknown_ids_ignored_witness:
  "used_image_ids ascii_digits
      [blog_post [post_with (img_tag (str_of ''2'')), post_with (img_tag (str_of ''99''))]]
     = used_image_ids ascii_digits [blog_post [post_with (img_tag (str_of ''2''))]] \<union> {99}
   \<and> {99} \<inter> image_id ` set (rows three_images) = {}
   \<and> fst (handle ascii_digits (sqlite 999) False
        [blog_post [post_with (img_tag (str_of ''2'')), post_with (img_tag (str_of ''99''))]]
        three_images)
     = fst (handle ascii_digits (sqlite 999) False [blog_post [post_with (img_tag (str_of ''2''))]]
        three_images)
   \<and> snd (snd (handle ascii_digits (sqlite 999) False
        [blog_post [post_with (img_tag (str_of ''2'')), post_with (img_tag (str_of ''99''))]]
        three_images))
     = snd (snd (handle ascii_digits (sqlite 999) False
        [blog_post [post_with (img_tag (str_of ''2''))]] three_images))
   \<and> deleted_ids (fst (snd (handle ascii_digits (sqlite 999) False
        [blog_post [post_with (img_tag (str_of ''2'')), post_with (img_tag (str_of ''99''))]]
        three_images)))
     = deleted_ids (fst (snd (handle ascii_digits (sqlite 999) False
        [blog_post [post_with (img_tag (str_of ''2''))]] three_images)))"
proof -
  let ?c = "[blog_post [post_with (img_tag (str_of ''2''))]]"
  let ?c' = "[blog_post [post_with (img_tag (str_of ''2'')), post_with (img_tag (str_of ''99''))]]"
  have 1: "used_image_ids ascii_digits ?c' = used_image_ids ascii_digits ?c \<union> {99}"
    by code_simp
  have 2: "{99} \<inter> image_id ` set (rows three_images) = {}"
    by (simp add: three_images_def image1_def image2_def image3_def)
  have 3: "exclude_query_error (sqlite 999) (used_image_ids ascii_digits ?c') = None"
    by code_simp
  have 4: "exclude_query_error (sqlite 999) (used_image_ids ascii_digits ?c) = None"
    by code_simp
  note th = unknown_ids_ignored [OF 1 2 3 4, of False]
  show ?thesis by (rule conjI [OF 1 conjI [OF 2 th]])
qed

section \<open>Running the command twice\<close>

text \<open>
  C6. When the command without \<^verbatim>\<open>--dry-run\<close> has ended without an exception, running it
  once more on the store it left, with the same catalog, deletes nothing: the store stays
  as it is, no deletion is reported, and the second run ends without an exception.
\<close>

theorem second_run_deletes_nothing:
  assumes "snd (snd (handle nd b False catalog s)) = None"
  shows "fst (handle nd b False catalog (fst (handle nd b False catalog s)))
           = fst (handle nd b False catalog s)
       \<and> deleted_ids (fst (snd (handle nd b False catalog (fst (handle nd b False catalog s))))) = []
       \<and> snd (snd (handle nd b False catalog (fst (handle nd b False catalog s)))) = None"
proof -
  let ?U = "used_image_ids nd catalog"
  let ?un = "filter (\<lambda>r. image_id r \<notin> ?U) (objects_all s)"
  let ?s1 = "fst (handle nd b False catalog s)"
  have q: "exclude_query_error b ?U = None"
  proof (cases "exclude_query_error b ?U")
    case None
    then show ?thesis .
  next
    case (Some e)
    with assms show ?thesis by (simp add: handle_query_raises)
  qed
  obtain s' ws e where d: "delete_loop b ?un s [] = (s', ws, e)"
    by (cases "delete_loop b ?un s []")
  with assms have e: "e = None"
    by (simp add: handle_query_ok [OF q] Let_def split: if_splits)
  with d delete_loop_done [of b ?un s "[]"] have "s' = remove_images ?un s" by simp
  with d have s1: "?s1 = remove_images ?un s"
    by (simp add: handle_query_ok [OF q] Let_def remove_images_Nil)
  have "filter (\<lambda>r. image_id r \<notin> ?U) (objects_all (remove_images ?un s)) = []"
    by (auto simp: filter_empty_conv set_objects_all remove_images_def)
  then have "filter (\<lambda>r. image_id r \<notin> ?U) (objects_all ?s1) = []"
    by (simp only: s1)
  then show ?thesis
    by (simp add: handle_query_ok [OF q, of False ?s1] Let_def deleted_ids_append scan_deleted)
qed

theorem second_run_deletes_nothing_witness:
  "snd (snd (handle ascii_digits (sqlite 999) False [blog_post [post_with (img_tag (str_of ''2''))]]
      three_images)) = None
   \<and> rows (fst (handle ascii_digits (sqlite 999) False [blog_post [post_with (img_tag (str_of ''2''))]]
        three_images)) = [image2]
   \<and> fst (handle ascii_digits (sqlite 999) False [blog_post [post_with (img_tag (str_of ''2''))]]
        (fst (handle ascii_digits (sqlite 999) False [blog_post [post_with (img_tag (str_of ''2''))]]
           three_images)))
       = fst (handle ascii_digits (sqlite 999) False [blog_post [post_with (img_tag (str_of ''2''))]]
           three_images)
   \<and> deleted_ids (fst (snd (handle ascii_digits (sqlite 999) False
        [blog_post [post_with (img_tag (str_of ''2''))]]
        (fst (handle ascii_digits (sqlite 999) False [blog_post [post_with (img_tag (str_of ''2''))]]
           three_images))))) = []
   \<and> snd (snd (handle ascii_digits (sqlite 999) False [blog_post [post_with (img_tag (str_of ''2''))]]
        (fst (handle ascii_digits (sqlite 999) False [blog_post [post_with (img_tag (str_of ''2''))]]
           three_images)))) = None"
proof -
  let ?c = "[blog_post [post_with (img_tag (str_of ''2''))]]"
  have 1: "snd (snd (handle ascii_digits (sqlite 999) False ?c three_images)) = None"
    by code_simp
  have 2: "rows (fst (handle ascii_digits (sqlite 999) False ?c three_images)) = [image2]"
    by code_simp
  note th = second_run_deletes_nothing [OF 1]
  show ?thesis by (rule conjI [OF 1 conjI [OF 2 th]])
qed

section \<open>Two images, none referenced\<close>

text \<open>
  Content that references neither image can still stop the command. Here the store holds
  the images 1 and 2 and the only marker is for the id \<open>2 ^ 63\<close>: sqlite refuses that id as
  a parameter of the query, the command ends with the exception and both images stay. And
  with no content at all, a storage that refuses to delete the file of image 2 ends the
  command before it has deleted anything.
\<close>

theorem two_unreferenced_images_counterexample:
  "1 \<notin> used_image_ids ascii_digits [blog_post [post_with (img_tag (str_of ''9223372036854775808''))]]
   \<and> 2 \<notin> used_image_ids ascii_digits [blog_post [post_with (img_tag (str_of ''9223372036854775808''))]]
   \<and> handle ascii_digits (sqlite 999) False
        [blog_post [post_with (img_tag (str_of ''9223372036854775808''))]] two_images
      = (two_images,
         [Searching, FoundUploaded 2, Checking ''BlogPost'', CheckedModels 1, FoundInUse 1],
         Some ''OverflowError: Python int too large to convert to SQLite INTEGER'')
   \<and> handle ascii_digits (failing_storage ''editor_uploads/b.jpg'' ''permission denied'') False
        [blog_post []] two_images
      = (two_images,
         [Searching, FoundUploaded 2, Checking ''BlogPost'', CheckedModels 1, FoundInUse 0,
          FoundUnused 2, Deleting ''editor_uploads/b.jpg'' 2],
         Some ''permission denied'')"
  by code_simp

text \<open>
  C7, as the code has it. The store holds exactly the images 1 and 2, no content references
  either, the database does not raise for the query and the deletions of the two images do
  not fail. Then the command without \<^verbatim>\<open>--dry-run\<close> leaves no row in the table, the files
  the two rows name are gone from the storage, the command ends without an exception, and
  the ids it reports as deleted are 1 and 2, each once, in the listing order of the store
  (by \<^verbatim>\<open>uploaded_at\<close>, descending): 2 before 1 when image 2 is the newer one, else 1
  before 2.
\<close>

theorem two_unreferenced_images_deleted:
  assumes "rows s = [r1, r2]" and "image_id r1 = 1" and "image_id r2 = 2"
    and "1 \<notin> used_image_ids nd catalog" and "2 \<notin> used_image_ids nd catalog"
    and "exclude_query_error b (used_image_ids nd catalog) = None"
    and "deletes_ok b s r1" and "deletes_ok b s r2"
  shows "rows (fst (handle nd b False catalog s)) = []
       \<and> files (fst (handle nd b False catalog s))
           = files s - ({image_name r1, image_name r2} - {[]})
       \<and> deleted_ids (fst (snd (handle nd b False catalog s)))
           = (if uploaded_at r1 < uploaded_at r2 then [2, 1] else [1, 2])
       \<and> deleted_ids (fst (snd (handle nd b False catalog s))) = map image_id (objects_all s)
       \<and> snd (snd (handle nd b False catalog s)) = None"
proof -
  have all: "objects_all s = (if uploaded_at r1 < uploaded_at r2 then [r2, r1] else [r1, r2])"
    using assms(1) by (auto simp: objects_all_def)
  have un: "filter (\<lambda>r. image_id r \<notin> used_image_ids nd catalog) (objects_all s) = objects_all s"
    using assms(1-5) by (simp add: set_objects_all)
  have ok: "list_all (deletes_ok b s)
      (filter (\<lambda>r. image_id r \<notin> used_image_ids nd catalog) (objects_all s))"
    unfolding un using assms(1,7,8) by (simp add: list_all_iff set_objects_all)
  have a: "rows (remove_images (objects_all s) s) = []"
    by (simp add: remove_images_def set_objects_all)
  have b: "files (remove_images (objects_all s) s) = files s - ({image_name r1, image_name r2} - {[]})"
    using assms(1) by (simp add: remove_images_def set_objects_all)
  from handle_ok [OF assms(6) ok] un all assms(2,3) a b show ?thesis by simp
qed

theorem two_unreferenced_images_deleted_witness:
  "rows two_images = [image1, image2] \<and> image_id image1 = 1 \<and> image_id image2 = 2
   \<and> 1 \<notin> used_image_ids ascii_digits [blog_post [post_with (str_of ''<p>text only</p>'')]]
   \<and> 2 \<notin> used_image_ids ascii_digits [blog_post [post_with (str_of ''<p>text only</p>'')]]
   \<and> rows (fst (handle ascii_digits (sqlite 999) False
        [blog_post [post_with (str_of ''<p>text only</p>'')]] two_images)) = []
   \<and> files (fst (handle ascii_digits (sqlite 999) False
        [blog_post [post_with (str_of ''<p>text only</p>'')]] two_images)) = {}
   \<and> deleted_ids (fst (snd (handle ascii_digits (sqlite 999) False
        [blog_post [post_with (str_of ''<p>text only</p>'')]] two_images))) = [2, 1]
   \<and> snd (snd (handle ascii_digits (sqlite 999) False
        [blog_post [post_with (str_of ''<p>text only</p>'')]] two_images)) = None"
proof -
  let ?c = "[blog_post [post_with (str_of ''<p>text only</p>'')]]"
  have 1: "rows two_images = [image1, image2]" by (simp add: two_images_def)
  have 2: "image_id image1 = 1" by (simp add: image1_def)
  have 3: "image_id image2 = 2" by (simp add: image2_def)
  have u: "used_image_ids ascii_digits ?c = {}" by code_simp
  then have 4: "1 \<notin> used_image_ids ascii_digits ?c" and 5: "2 \<notin> used_image_ids ascii_digits ?c"
    by simp_all
  have 6: "exclude_query_error (sqlite 999) (used_image_ids ascii_digits ?c) = None"
    by code_simp
  have t: "(if uploaded_at image1 < uploaded_at image2 then [2, 1] else [1, 2]) = [2, 1 :: int]"
    by (simp add: image1_def image2_def)
  have f: "files two_images - ({image_name image1, image_name image2} - {[]}) = {}"
    by (auto simp: two_images_def image1_def image2_def)
  note th = two_unreferenced_images_deleted
    [OF 1 2 3 4 5 6 deletes_ok_sqlite deletes_ok_sqlite, unfolded t f]
  from th have a: "rows (fst (handle ascii_digits (sqlite 999) False ?c two_images)) = []"
    by (elim conjE)
  from th have b: "files (fst (handle ascii_digits (sqlite 999) False ?c two_images)) = {}"
    by (elim conjE)
  from th have c: "deleted_ids (fst (snd (handle ascii_digits (sqlite 999) False ?c two_images)))
      = [2, 1]"
    by (elim conjE)
  from th have d: "snd (snd (handle ascii_digits (sqlite 999) False ?c two_images)) = None"
    by (elim conjE)
  show ?thesis by (intro conjI 1 2 3 4 5 a b c d)
qed

section \<open>A read that raises\<close>

text \<open>
  The \<^verbatim>\<open>try\<close> encloses the whole loop over the instances of a model, for one field. A
  read that raises therefore ends that loop. Here the first post cannot be read and the
  second one references image 2: the scan finds no id in use, writes one warning, and the
  command deletes all three images, image 2 among them. Without the first post, image 2
  is in use.
\<close>

theorem read_error_ends_instance_loop_counterexample:
  "used_image_ids ascii_digits [blog_post [broken_post, post_with (img_tag (str_of ''2''))]]
     \<noteq> used_image_ids ascii_digits [blog_post [post_with (img_tag (str_of ''2''))]]
   \<and> used_image_ids ascii_digits [blog_post [post_with (img_tag (str_of ''2''))]] = {2}
   \<and> used_image_ids ascii_digits [blog_post [broken_post, post_with (img_tag (str_of ''2''))]] = {}
   \<and> warnings (fst (snd (handle ascii_digits (sqlite 999) False
         [blog_post [broken_post, post_with (img_tag (str_of ''2''))]] three_images)))
       = [(''BlogPost'', ''content'', ''decode failure'')]
   \<and> rows (fst (handle ascii_digits (sqlite 999) False
         [blog_post [broken_post, post_with (img_tag (str_of ''2''))]] three_images)) = []"
proof -
  let ?c = "[blog_post [post_with (img_tag (str_of ''2''))]]"
  let ?c' = "[blog_post [broken_post, post_with (img_tag (str_of ''2''))]]"
  have 1: "used_image_ids ascii_digits ?c = {2}" by code_simp
  have 2: "used_image_ids ascii_digits ?c' = {}" by code_simp
  have 3: "warnings (fst (snd (handle ascii_digits (sqlite 999) False ?c' three_images)))
       = [(''BlogPost'', ''content'', ''decode failure'')]" by code_simp
  have 4: "rows (fst (handle ascii_digits (sqlite 999) False ?c' three_images)) = []" by code_simp
  have 0: "used_image_ids ascii_digits ?c' \<noteq> used_image_ids ascii_digits ?c"
    unfolding 1 2 by simp
  show ?thesis by (intro conjI 0 1 2 3 4)
qed

text \<open>
  C2, as the code has it. When the read of a text attribute raises for an instance, and
  the loop body raised for no instance before it, the command writes a warning that names
  the model and the field and goes on with the next text field of the model (and then with
  the next models): the scan ends in any case. The ids found in the instances before the
  failing one are kept; the failing instance and all instances after it are not read for
  this field.
\<close>

theorem read_error_ends_instance_loop:
  assumes "objects m = before @ bad # after"
    and "list_all (\<lambda>i. \<not> raises_on nd (field_name f) i) before"
    and "bad (field_name f) = Some (Raises e)"
  shows "scan_fields nd m (f # fs) (used, out)
           = scan_fields nd m fs (fst (scan_instances nd (field_name f) before used),
                                  out @ [ErrorChecking (model_name m) (field_name f) e])"
proof -
  let ?A = "{n. \<exists>i\<in>set before. \<exists>html. i (field_name f) = Some (Value (Some html)) \<and> has_marker nd html n}"
  have "scan_instances nd (field_name f) (before @ bad # after) used
      = scan_instances nd (field_name f) (bad # after) (used \<union> ?A)"
    by (rule scan_instances_ok [OF assms(2)])
  also have "\<dots> = (used \<union> ?A, Some e)"
    by (rule scan_instances_raise [where inst = bad and fname = "field_name f", OF assms(3)])
  finally have "scan_instances nd (field_name f) (objects m) used = (used \<union> ?A, Some e)"
    by (simp only: assms(1))
  moreover have "fst (scan_instances nd (field_name f) before used) = used \<union> ?A"
    by (simp only: scan_instances_all_ok [OF assms(2)] fst_conv)
  ultimately show ?thesis by simp
qed

theorem read_error_ends_instance_loop_witness:
  "scan_fields ascii_digits
     (blog_post [post_with (img_tag (str_of ''1'')), broken_post, post_with (img_tag (str_of ''2''))])
     [\<lparr>field_name = ''content'', field_type = TextField\<rparr>] ({}, [])
   = ({1}, [ErrorChecking ''BlogPost'' ''content'' ''decode failure''])"
proof -
  let ?m = "blog_post [post_with (img_tag (str_of ''1'')), broken_post, post_with (img_tag (str_of ''2''))]"
  let ?f = "\<lparr>field_name = ''content'', field_type = TextField\<rparr>"
  have 1: "objects ?m = [post_with (img_tag (str_of ''1''))] @ broken_post # [post_with (img_tag (str_of ''2''))]"
    by (simp add: blog_post_def)
  have 2: "list_all (\<lambda>i. \<not> raises_on ascii_digits (field_name ?f) i) [post_with (img_tag (str_of ''1''))]"
    by code_simp
  have 3: "broken_post (field_name ?f) = Some (Raises ''decode failure'')"
    by (simp add: broken_post_def)
  have 4: "fst (scan_instances ascii_digits (field_name ?f) [post_with (img_tag (str_of ''1''))] {}) = {1}"
    by code_simp
  have 5: "model_name ?m = ''BlogPost''" by (simp add: blog_post_def)
  have 6: "field_name ?f = ''content''" by simp
  from read_error_ends_instance_loop [OF 1 2 3, of "[]" "{}" "[]"]
  show ?thesis unfolding 4 5 unfolding 6 by simp
qed

section \<open>A deletion that fails\<close>

text \<open>
  Nothing encloses the two deletions. Here images 3 and 1 are unused, in this listing
  order, and the storage refuses to delete the file of image 3: the command ends with that
  exception after the line for image 3; the row of image 3 is still in the table, image 1
  has not been touched, and no warning has been written.
\<close>

theorem deletion_failure_ends_run_counterexample:
  "handle ascii_digits (failing_storage ''editor_uploads/c.jpg'' ''permission denied'') False
     [blog_post [post_with (img_tag (str_of ''2''))]] three_images
   = (three_images,
      [Searching, FoundUploaded 3, Checking ''BlogPost'', CheckedModels 1, FoundInUse 1,
       FoundUnused 2, Deleting ''editor_uploads/c.jpg'' 3],
      Some ''permission denied'')"
  by code_simp

text \<open>
  C3, as the code has it. The unused images are deleted in listing order, the file first
  and then the row. When the images \<open>before\<close> are deleted without a failure and a deletion of
  the next image \<open>r\<close> fails, the command ends with the exception of that deletion: the rows
  of \<open>before\<close> have left the table and their files the storage; the row of \<open>r\<close> is still
  there, and so is its file unless it was the deletion of the row that failed; the images
  after \<open>r\<close> are not touched. After what the scan wrote, the command has written how many
  images are unused and the lines of the deletions of \<open>before\<close> and of \<open>r\<close>, and nothing
  else: no warning.
\<close>

theorem deletion_failure_ends_run:
  assumes "unused_images b (objects_all s) (used_image_ids nd catalog) = Inr (before @ r # after)"
    and "list_all (deletes_ok b s) before" and "\<not> deletes_ok b s r"
  shows "snd (snd (handle nd b False catalog s)) \<noteq> None
       \<and> rows (fst (handle nd b False catalog s))
           = filter (\<lambda>x. image_id x \<notin> image_id ` set before) (rows s)
       \<and> files (fst (handle nd b False catalog s))
           = files s - (image_name ` set before - {[]})
               - (if image_name r \<noteq> [] \<and> storage_delete_error b (image_name r) = None
                  then {image_name r} else {})
       \<and> deleted_ids (fst (snd (handle nd b False catalog s))) = map image_id before @ [image_id r]
       \<and> snd (snd (handle nd b False catalog s)) = delete_error b s r
       \<and> fst (snd (handle nd b False catalog s))
           = snd (scan nd catalog s) @ FoundUnused (length (before @ r # after))
               # map (\<lambda>x. Deleting (image_name x) (image_id x)) (before @ [r])"
proof -
  from assms(1) have q: "exclude_query_error b (used_image_ids nd catalog) = None"
    and un: "filter (\<lambda>r. image_id r \<notin> used_image_ids nd catalog) (objects_all s) = before @ r # after"
    by (auto simp: unused_images_def split: option.splits)
  note d1 = delete_loop_first_failure(1) [OF assms(2,3), of after "[]"]
  note d2 = delete_loop_first_failure(2) [OF assms(2,3)]
  from d2 obtain e where e: "delete_error b s r = Some e" by auto
  from d1 e show ?thesis
    by (simp add: handle_query_ok [OF q] Let_def un deleted_ids_append scan_deleted
        deleted_ids_map_Deleting)
qed

theorem deletion_failure_ends_run_witness:
  "unused_images (failing_storage ''editor_uploads/b.jpg'' ''permission denied'')
     (objects_all three_images)
     (used_image_ids ascii_digits [blog_post [post_with (img_tag (str_of ''1''))]])
     = Inr ([image3] @ image2 # [])
   \<and> snd (snd (handle ascii_digits (failing_storage ''editor_uploads/b.jpg'' ''permission denied'')
         False [blog_post [post_with (img_tag (str_of ''1''))]] three_images)) \<noteq> None
   \<and> rows (fst (handle ascii_digits (failing_storage ''editor_uploads/b.jpg'' ''permission denied'')
         False [blog_post [post_with (img_tag (str_of ''1''))]] three_images)) = [image1, image2]
   \<and> files (fst (handle ascii_digits (failing_storage ''editor_uploads/b.jpg'' ''permission denied'')
         False [blog_post [post_with (img_tag (str_of ''1''))]] three_images))
       = {''editor_uploads/a.jpg'', ''editor_uploads/b.jpg''}
   \<and> deleted_ids (fst (snd (handle ascii_digits
         (failing_storage ''editor_uploads/b.jpg'' ''permission denied'')
         False [blog_post [post_with (img_tag (str_of ''1''))]] three_images))) = [3, 2]
   \<and> snd (snd (handle ascii_digits (failing_storage ''editor_uploads/b.jpg'' ''permission denied'')
         False [blog_post [post_with (img_tag (str_of ''1''))]] three_images))
       = Some ''permission denied''
   \<and> fst (snd (handle ascii_digits (failing_storage ''editor_uploads/b.jpg'' ''permission denied'')
         False [blog_post [post_with (img_tag (str_of ''1''))]] three_images))
       = [Searching, FoundUploaded 3, Checking ''BlogPost'', CheckedModels 1, FoundInUse 1,
          FoundUnused 2, Deleting ''editor_uploads/c.jpg'' 3, Deleting ''editor_uploads/b.jpg'' 2]"
proof -
  let ?b = "failing_storage ''editor_uploads/b.jpg'' ''permission denied''"
  let ?c = "[blog_post [post_with (img_tag (str_of ''1''))]]"
  have 1: "unused_images ?b (objects_all three_images) (used_image_ids ascii_digits ?c)
      = Inr ([image3] @ image2 # [])"
    by code_simp
  have 2: "list_all (deletes_ok ?b three_images) [image3]" by code_simp
  have 3: "\<not> deletes_ok ?b three_images image2" by code_simp
  have a: "filter (\<lambda>x. image_id x \<notin> image_id ` set [image3]) (rows three_images) = [image1, image2]"
    by (simp add: three_images_def image1_def image2_def image3_def)
  have b: "files three_images - (image_name ` set [image3] - {[]})
      - (if image_name image2 \<noteq> [] \<and> storage_delete_error ?b (image_name image2) = None
         then {image_name image2} else {})
      = {''editor_uploads/a.jpg'', ''editor_uploads/b.jpg''}"
    by (auto simp: three_images_def image2_def image3_def failing_storage_def)
  have c: "map image_id [image3] @ [image_id image2] = [3, 2]"
    by (simp add: image2_def image3_def)
  have d: "delete_error ?b three_images image2 = Some ''permission denied''" by code_simp
  have e: "snd (scan ascii_digits ?c three_images) @ FoundUnused (length ([image3] @ image2 # []))
       # map (\<lambda>x. Deleting (image_name x) (image_id x)) ([image3] @ [image2])
     = [Searching, FoundUploaded 3, Checking ''BlogPost'', CheckedModels 1, FoundInUse 1,
        FoundUnused 2, Deleting ''editor_uploads/c.jpg'' 3, Deleting ''editor_uploads/b.jpg'' 2]"
    by code_simp
  note th = deletion_failure_ends_run [OF 1 2 3, unfolded a b c d e]
  show ?thesis by (rule conjI [OF 1 th])
qed

section \<open>An image that is already gone\<close>

text \<open>
  C8. The loop runs over the images listed before the first deletion, and one of them may
  have left the store since. Whatever the backend: the deletion of a file that is not in
  the storage raises nothing and changes nothing, and so does the deletion of a row that
  is not in the table. So for an image whose file and row are both gone the loop writes
  its line, leaves the store as it is, and goes on with the next image; wherever such an
  image stands in the list, the store after the loop and the exception that ends it, if
  any, are those of the loop over the list without it. The loop writes no warning.
\<close>

theorem deleting_absent_image:
  "(image_name r \<notin> files s \<longrightarrow> fieldfile_delete b r s = Inr s)
   \<and> (image_id r \<notin> image_id ` set (rows s) \<longrightarrow> model_delete b r s = Inr s)
   \<and> (image_name r \<notin> files s \<and> image_id r \<notin> image_id ` set (rows s) \<longrightarrow>
        delete_loop b (r # rest) s out
          = delete_loop b rest s (out @ [Deleting (image_name r) (image_id r)])
        \<and> fst (delete_loop b (before @ r # after) s out) = fst (delete_loop b (before @ after) s out)
        \<and> snd (snd (delete_loop b (before @ r # after) s out))
            = snd (snd (delete_loop b (before @ after) s out)))
   \<and> warnings (fst (snd (delete_loop b imgs s out))) = warnings out"
proof (intro conjI impI)
  show "warnings (fst (snd (delete_loop b imgs s out))) = warnings out"
    by (rule delete_loop_warnings)
next
  assume "image_name r \<notin> files s"
  then show "fieldfile_delete b r s = Inr s" by (simp add: fieldfile_delete_def)
next
  assume "image_id r \<notin> image_id ` set (rows s)"
  then show "model_delete b r s = Inr s" by (simp add: model_delete_def)
next
  assume "image_name r \<notin> files s \<and> image_id r \<notin> image_id ` set (rows s)"
  then show "delete_loop b (r # rest) s out
      = delete_loop b rest s (out @ [Deleting (image_name r) (image_id r)])"
    by (simp add: fieldfile_delete_def model_delete_def)
next
  assume a: "image_name r \<notin> files s \<and> image_id r \<notin> image_id ` set (rows s)"
  from a delete_loop_skip_absent [of r s b before after out out]
  show "fst (delete_loop b (before @ r # after) s out) = fst (delete_loop b (before @ after) s out)"
    by simp
next
  assume a: "image_name r \<notin> files s \<and> image_id r \<notin> image_id ` set (rows s)"
  from a delete_loop_skip_absent [of r s b before after out out]
  show "snd (snd (delete_loop b (before @ r # after) s out))
      = snd (snd (delete_loop b (before @ after) s out))"
    by simp
qed

theorem deleting_absent_image_witness:
  "image_name image3 \<notin> files two_images
   \<and> image_id image3 \<notin> image_id ` set (rows two_images)
   \<and> storage_delete_error (failing_storage ''editor_uploads/c.jpg'' ''permission denied'')
        (image_name image3) = Some ''permission denied''
   \<and> fieldfile_delete (failing_storage ''editor_uploads/c.jpg'' ''permission denied'') image3
        two_images = Inr two_images
   \<and> model_delete (failing_storage ''editor_uploads/c.jpg'' ''permission denied'') image3
        two_images = Inr two_images
   \<and> delete_loop (failing_storage ''editor_uploads/c.jpg'' ''permission denied'') [image3, image1]
        two_images []
      = (\<lparr>rows = [image2], files = {''editor_uploads/b.jpg''}\<rparr>,
         [Deleting ''editor_uploads/c.jpg'' 3, Deleting ''editor_uploads/a.jpg'' 1], None)"
proof -
  let ?b = "failing_storage ''editor_uploads/c.jpg'' ''permission denied''"
  have 1: "image_name image3 \<notin> files two_images" by code_simp
  have 2: "image_id image3 \<notin> image_id ` set (rows two_images)" by code_simp
  have 3: "storage_delete_error ?b (image_name image3) = Some ''permission denied''" by code_simp
  have 4: "delete_loop ?b [image1] two_images ([] @ [Deleting (image_name image3) (image_id image3)])
      = (\<lparr>rows = [image2], files = {''editor_uploads/b.jpg''}\<rparr>,
         [Deleting ''editor_uploads/c.jpg'' 3, Deleting ''editor_uploads/a.jpg'' 1], None)"
    by code_simp
  note th = deleting_absent_image [of image3 two_images ?b "[image1]" "[]" "[]" "[image1]" "[]"]
  from th 1 have a: "fieldfile_delete ?b image3 two_images = Inr two_images" by blast
  from th 2 have b: "model_delete ?b image3 two_images = Inr two_images" by blast
  from th 1 2 have "delete_loop ?b [image3, image1] two_images []
      = delete_loop ?b [image1] two_images ([] @ [Deleting (image_name image3) (image_id image3)])"
    by blast
  then have c: "delete_loop ?b [image3, image1] two_images []
      = (\<lparr>rows = [image2], files = {''editor_uploads/b.jpg''}\<rparr>,
         [Deleting ''editor_uploads/c.jpg'' 3, Deleting ''editor_uploads/a.jpg'' 1], None)"
    by (simp only: 4)
  show ?thesis by (intro conjI 1 2 3 a b c)
qed

end
